theory Spec2Isabelle
  imports Complex_Main "HOL-Library.Multiset"
begin

section \<open>The data point type\<close>

text \<open>
  \<open>QCPDataContainer\<close> is a class template over \<open>DataType\<close>. The container only uses the
  sort key of a point (a \<open>double\<close>), its default constructor (\<open>QVector::resize\<close>) and
  \<open>DataType::fromSortKey\<close>. A point is modelled after \<open>QCPGraphData\<close>: a sort key and one
  payload coordinate. Sort keys are compared with \<open><\<close> and \<open>==\<close> only, which are exact on
  doubles, so a key is a \<open>real\<close>; NaN keys are outside the model (the container requires
  the keys to be ordered).
\<close>

record DataType =
  sortKey :: real
  mainValue :: real

text \<open>Modelled from the spec: the default constructor of the point type (all fields zero).\<close>

definition DataType_default :: DataType where
  "DataType_default = \<lparr>sortKey = 0, mainValue = 0\<rparr>"

text \<open>Modelled from the spec: \<open>fromSortKey\<close> builds a probe with only the sort key populated.\<close>

definition fromSortKey :: "real \<Rightarrow> DataType" where
  "fromSortKey k = \<lparr>sortKey = k, mainValue = 0\<rparr>"

definition qcpLessThanSortKey :: "DataType \<Rightarrow> DataType \<Rightarrow> bool" where
  "qcpLessThanSortKey a b = (sortKey a < sortKey b)"

definition qBound :: "int \<Rightarrow> int \<Rightarrow> int \<Rightarrow> int" where
  "qBound mn v mx = max mn (min mx v)"

section \<open>Library operations on the buffer\<close>

text \<open>
  The buffer \<open>mData\<close> is a \<open>QVector<DataType>\<close>, a list here. An iterator is the integer
  offset of the element from \<open>mData.begin()\<close>. The operations of \<open>QVector\<close> and of the
  standard library that the container calls are written out on lists.
\<close>

definition slice :: "'a list \<Rightarrow> int \<Rightarrow> int \<Rightarrow> 'a list" where
  "slice buf first lst = take (nat (lst - first)) (drop (nat first) buf)"

definition overwrite :: "'a list \<Rightarrow> int \<Rightarrow> 'a list \<Rightarrow> 'a list" where
  "overwrite buf pos src = take (nat pos) buf @ src @ drop (nat pos + length src) buf"

text \<open>\<open>std::copy(first, last, d_first)\<close> from the range \<open>[first, last)\<close> of \<open>src\<close> into \<open>buf\<close>.\<close>

definition std_copy :: "'a list \<Rightarrow> int \<Rightarrow> int \<Rightarrow> 'a list \<Rightarrow> int \<Rightarrow> 'a list" where
  "std_copy src first lst buf d_first = overwrite buf d_first (slice src first lst)"

text \<open>\<open>std::copy_backward(first, last, d_last)\<close> within one buffer.\<close>

definition std_copy_backward :: "'a list \<Rightarrow> int \<Rightarrow> int \<Rightarrow> int \<Rightarrow> 'a list" where
  "std_copy_backward buf first lst d_last =
     overwrite buf (d_last - (lst - first)) (slice buf first lst)"

definition QVector_resize :: "DataType list \<Rightarrow> int \<Rightarrow> DataType list" where
  "QVector_resize buf n =
     (if n \<le> int (length buf) then take (nat n) buf
      else buf @ replicate (nat n - length buf) DataType_default)"

definition QVector_insert :: "'a list \<Rightarrow> int \<Rightarrow> 'a \<Rightarrow> 'a list" where
  "QVector_insert buf pos x = take (nat pos) buf @ x # drop (nat pos) buf"

definition QVector_erase :: "'a list \<Rightarrow> int \<Rightarrow> int \<Rightarrow> 'a list" where
  "QVector_erase buf abegin aend = take (nat abegin) buf @ drop (nat aend) buf"

text \<open>
  \<open>std::lower_bound\<close> and \<open>std::upper_bound\<close>: the halving loop of the standard library
  over the range that starts at \<open>first\<close> and has \<open>len\<close> elements.
\<close>

function lower_bound_loop :: "DataType list \<Rightarrow> DataType \<Rightarrow> int \<Rightarrow> int \<Rightarrow> int" where
  "lower_bound_loop buf v first len =
     (if 0 < len then
        (let half = len div 2; middle = first + half in
         if qcpLessThanSortKey (buf ! nat middle) v
         then lower_bound_loop buf v (middle + 1) (len - half - 1)
         else lower_bound_loop buf v first half)
      else first)"
  by pat_completeness auto
termination
  by (relation "measure (\<lambda>(buf, v, first, len). nat len)") auto

function upper_bound_loop :: "DataType list \<Rightarrow> DataType \<Rightarrow> int \<Rightarrow> int \<Rightarrow> int" where
  "upper_bound_loop buf v first len =
     (if 0 < len then
        (let half = len div 2; middle = first + half in
         if qcpLessThanSortKey v (buf ! nat middle)
         then upper_bound_loop buf v first half
         else upper_bound_loop buf v (middle + 1) (len - half - 1))
      else first)"
  by pat_completeness auto
termination
  by (relation "measure (\<lambda>(buf, v, first, len). nat len)") auto

definition std_lower_bound :: "DataType list \<Rightarrow> int \<Rightarrow> int \<Rightarrow> DataType \<Rightarrow> int" where
  "std_lower_bound buf first lst v = lower_bound_loop buf v first (lst - first)"

definition std_upper_bound :: "DataType list \<Rightarrow> int \<Rightarrow> int \<Rightarrow> DataType \<Rightarrow> int" where
  "std_upper_bound buf first lst v = upper_bound_loop buf v first (lst - first)"

text \<open>
  \<open>std::sort\<close> with \<open>qcpLessThanSortKey\<close>: some sorted permutation of the range. The order
  among equal keys is up to the library; the model takes the insertion order.
\<close>

definition std_sort :: "DataType list \<Rightarrow> int \<Rightarrow> int \<Rightarrow> DataType list" where
  "std_sort buf first lst =
     overwrite buf first (sort_key sortKey (slice buf first lst))"

text \<open>
  \<open>std::inplace_merge\<close>: the stable merge of two adjacent runs; an element of the second
  run goes first only when it is less than the head of the first run.
\<close>

fun merge_runs :: "DataType list \<Rightarrow> DataType list \<Rightarrow> DataType list" where
  "merge_runs [] ys = ys"
| "merge_runs xs [] = xs"
| "merge_runs (x # xs) (y # ys) =
     (if qcpLessThanSortKey y x then y # merge_runs (x # xs) ys
      else x # merge_runs xs (y # ys))"

definition std_inplace_merge :: "DataType list \<Rightarrow> int \<Rightarrow> int \<Rightarrow> int \<Rightarrow> DataType list" where
  "std_inplace_merge buf first middle lst =
     overwrite buf first (merge_runs (slice buf first middle) (slice buf middle lst))"

section \<open>The container\<close>

record QCPDataContainer =
  mAutoSqueeze :: bool
  mData :: "DataType list"
  mPreallocSize :: int
  mPreallocIteration :: int

definition QCPDataContainer_new :: QCPDataContainer where
  "QCPDataContainer_new =
     \<lparr>mAutoSqueeze = True, mData = [], mPreallocSize = 0, mPreallocIteration = 0\<rparr>"

definition size_c :: "QCPDataContainer \<Rightarrow> int" where
  "size_c s = int (length (mData s)) - mPreallocSize s"

definition isEmpty :: "QCPDataContainer \<Rightarrow> bool" where
  "isEmpty s = (size_c s = 0)"

definition constBegin :: "QCPDataContainer \<Rightarrow> int" where
  "constBegin s = 0 + mPreallocSize s"

definition constEnd :: "QCPDataContainer \<Rightarrow> int" where
  "constEnd s = int (length (mData s))"

definition deref :: "QCPDataContainer \<Rightarrow> int \<Rightarrow> DataType" where
  "deref s it = mData s ! nat it"

definition at_c :: "QCPDataContainer \<Rightarrow> int \<Rightarrow> int" where
  "at_c s index = constBegin s + qBound 0 index (size_c s)"

text \<open>The logical sequence: what a caller reads between \<open>constBegin\<close> and \<open>constEnd\<close>.\<close>

definition live :: "QCPDataContainer \<Rightarrow> DataType list" where
  "live s = slice (mData s) (constBegin s) (constEnd s)"

definition sort_c :: "QCPDataContainer \<Rightarrow> QCPDataContainer" where
  "sort_c s = s\<lparr>mData := std_sort (mData s) (constBegin s) (constEnd s)\<rparr>"

definition set_vector :: "QCPDataContainer \<Rightarrow> DataType list \<Rightarrow> bool \<Rightarrow> QCPDataContainer" where
  "set_vector s data alreadySorted =
     (let s1 = s\<lparr>mData := data, mPreallocSize := 0, mPreallocIteration := 0\<rparr>
      in if \<not> alreadySorted then sort_c s1 else s1)"

definition clear :: "QCPDataContainer \<Rightarrow> QCPDataContainer" where
  "clear s = s\<lparr>mData := [], mPreallocIteration := 0, mPreallocSize := 0\<rparr>"

text \<open>\<open>QVector::squeeze\<close> releases unused capacity; the elements stay as they are.\<close>

definition QVector_squeeze :: "'a list \<Rightarrow> 'a list" where
  [simp]: "QVector_squeeze buf = buf"

definition squeeze :: "QCPDataContainer \<Rightarrow> bool \<Rightarrow> bool \<Rightarrow> QCPDataContainer" where
  "squeeze s preAllocation postAllocation =
     (let s1 =
        (if preAllocation then
           (let s2 =
              (if mPreallocSize s > 0 then
                 (let copied = std_copy (mData s) (constBegin s) (constEnd s) (mData s) 0
                  in s\<lparr>mData := QVector_resize copied (size_c s), mPreallocSize := 0\<rparr>)
               else s)
            in s2\<lparr>mPreallocIteration := 0\<rparr>)
         else s)
      in if postAllocation then s1\<lparr>mData := QVector_squeeze (mData s1)\<rparr> else s1)"

text \<open>
  \<open>mData.capacity()\<close> is decided by the allocation policy of \<open>QVector\<close>, which is not part
  of the container: the value it returns is the argument \<open>totalAlloc\<close>.
\<close>

definition performAutoSqueeze :: "QCPDataContainer \<Rightarrow> int \<Rightarrow> QCPDataContainer" where
  "performAutoSqueeze s totalAlloc =
     (let postAllocSize = totalAlloc - int (length (mData s));
          usedSize = size_c s;
          shrinkPostAllocation =
            (if totalAlloc > 650000 then real_of_int postAllocSize > real_of_int usedSize * 1.5
             else if totalAlloc > 1000 then postAllocSize > usedSize * 5
             else False);
          shrinkPreAllocation =
            (if totalAlloc > 650000 then mPreallocSize s * 10 > usedSize
             else if totalAlloc > 1000
                  then real_of_int (mPreallocSize s) > real_of_int usedSize * 1.5
             else False)
      in if shrinkPreAllocation \<or> shrinkPostAllocation
         then squeeze s shrinkPreAllocation shrinkPostAllocation else s)"

definition preallocateGrow :: "QCPDataContainer \<Rightarrow> int \<Rightarrow> QCPDataContainer" where
  "preallocateGrow s minimumPreallocSize =
     (if minimumPreallocSize \<le> mPreallocSize s then s
      else
        (let newPreallocSize =
               minimumPreallocSize + (2 ^ nat (qBound 4 (mPreallocIteration s + 4) 15) - 12);
             sizeDifference = newPreallocSize - mPreallocSize s;
             resized = QVector_resize (mData s) (int (length (mData s)) + sizeDifference);
             moved = std_copy_backward resized (mPreallocSize s)
                       (int (length resized) - sizeDifference) (int (length resized))
         in s\<lparr>mData := moved, mPreallocSize := newPreallocSize,
               mPreallocIteration := mPreallocIteration s + 1\<rparr>))"

text \<open>
  The prepend branch of the range overloads of \<open>add\<close> for a source vector \<open>src\<close>, as a
  function of its own; the overloads below carry the branch inline, as the source does.
\<close>

definition prepend_range :: "QCPDataContainer \<Rightarrow> DataType list \<Rightarrow> QCPDataContainer" where
  "prepend_range s src =
     (let n = int (length src);
          s1 = (if mPreallocSize s < n then preallocateGrow s n else s);
          s2 = s1\<lparr>mPreallocSize := mPreallocSize s1 - n\<rparr>
      in s2\<lparr>mData := std_copy src 0 n (mData s2) (constBegin s2)\<rparr>)"

definition add_container :: "QCPDataContainer \<Rightarrow> QCPDataContainer \<Rightarrow> QCPDataContainer" where
  "add_container s data =
     (if isEmpty data then s
      else
        (let n = size_c data; oldSize = size_c s in
         if oldSize > 0 \<and>
            \<not> qcpLessThanSortKey (deref s (constBegin s)) (deref data (constEnd data - 1))
         then
           (let s1 = (if mPreallocSize s < n then preallocateGrow s n else s);
                s2 = s1\<lparr>mPreallocSize := mPreallocSize s1 - n\<rparr>
            in s2\<lparr>mData := std_copy (mData data) (constBegin data) (constEnd data)
                                (mData s2) (constBegin s2)\<rparr>)
         else
           (let s1 = s\<lparr>mData := QVector_resize (mData s) (int (length (mData s)) + n)\<rparr>;
                s2 = s1\<lparr>mData := std_copy (mData data) (constBegin data) (constEnd data)
                                   (mData s1) (constEnd s1 - n)\<rparr>
            in if oldSize > 0 \<and>
                  \<not> qcpLessThanSortKey (deref s2 (constEnd s2 - n - 1)) (deref s2 (constEnd s2 - n))
               then s2\<lparr>mData := std_inplace_merge (mData s2) (constBegin s2)
                                   (constEnd s2 - n) (constEnd s2)\<rparr>
               else s2)))"

definition set_container :: "QCPDataContainer \<Rightarrow> QCPDataContainer \<Rightarrow> QCPDataContainer" where
  "set_container s data = add_container (clear s) data"

definition add_vector :: "QCPDataContainer \<Rightarrow> DataType list \<Rightarrow> bool \<Rightarrow> QCPDataContainer" where
  "add_vector s data alreadySorted =
     (if data = [] then s
      else if isEmpty s then set_vector s data alreadySorted
      else
        (let n = int (length data); oldSize = size_c s in
         if alreadySorted \<and> oldSize > 0 \<and>
            \<not> qcpLessThanSortKey (deref s (constBegin s)) (data ! nat (n - 1))
         then
           (let s1 = (if mPreallocSize s < n then preallocateGrow s n else s);
                s2 = s1\<lparr>mPreallocSize := mPreallocSize s1 - n\<rparr>
            in s2\<lparr>mData := std_copy data 0 n (mData s2) (constBegin s2)\<rparr>)
         else
           (let s1 = s\<lparr>mData := QVector_resize (mData s) (int (length (mData s)) + n)\<rparr>;
                s2 = s1\<lparr>mData := std_copy data 0 n (mData s1) (constEnd s1 - n)\<rparr>;
                s3 = (if \<not> alreadySorted
                      then s2\<lparr>mData := std_sort (mData s2) (constEnd s2 - n) (constEnd s2)\<rparr>
                      else s2)
            in if oldSize > 0 \<and>
                  \<not> qcpLessThanSortKey (deref s3 (constEnd s3 - n - 1)) (deref s3 (constEnd s3 - n))
               then s3\<lparr>mData := std_inplace_merge (mData s3) (constBegin s3)
                                   (constEnd s3 - n) (constEnd s3)\<rparr>
               else s3)))"

definition add :: "QCPDataContainer \<Rightarrow> DataType \<Rightarrow> QCPDataContainer" where
  "add s data =
     (if isEmpty s \<or> \<not> qcpLessThanSortKey data (deref s (constEnd s - 1))
      then s\<lparr>mData := mData s @ [data]\<rparr>
      else if qcpLessThanSortKey data (deref s (constBegin s))
      then
        (let s1 = (if mPreallocSize s < 1 then preallocateGrow s 1 else s);
             s2 = s1\<lparr>mPreallocSize := mPreallocSize s1 - 1\<rparr>
         in s2\<lparr>mData := (mData s2)[nat (constBegin s2) := data]\<rparr>)
      else
        (let insertionPoint = std_lower_bound (mData s) (constBegin s) (constEnd s) data
         in s\<lparr>mData := QVector_insert (mData s) insertionPoint data\<rparr>))"

definition removeBefore :: "QCPDataContainer \<Rightarrow> real \<Rightarrow> int \<Rightarrow> QCPDataContainer" where
  "removeBefore s k totalAlloc =
     (let it = constBegin s;
          itEnd = std_lower_bound (mData s) (constBegin s) (constEnd s) (fromSortKey k);
          s1 = s\<lparr>mPreallocSize := mPreallocSize s + (itEnd - it)\<rparr>
      in if mAutoSqueeze s1 then performAutoSqueeze s1 totalAlloc else s1)"

definition removeAfter :: "QCPDataContainer \<Rightarrow> real \<Rightarrow> int \<Rightarrow> QCPDataContainer" where
  "removeAfter s k totalAlloc =
     (let it = std_upper_bound (mData s) (constBegin s) (constEnd s) (fromSortKey k);
          itEnd = constEnd s;
          s1 = s\<lparr>mData := QVector_erase (mData s) it itEnd\<rparr>
      in if mAutoSqueeze s1 then performAutoSqueeze s1 totalAlloc else s1)"

definition remove_range :: "QCPDataContainer \<Rightarrow> real \<Rightarrow> real \<Rightarrow> int \<Rightarrow> QCPDataContainer" where
  "remove_range s sortKeyFrom sortKeyTo totalAlloc =
     (if sortKeyFrom \<ge> sortKeyTo \<or> isEmpty s then s
      else
        (let it = std_lower_bound (mData s) (constBegin s) (constEnd s) (fromSortKey sortKeyFrom);
             itEnd = std_upper_bound (mData s) it (constEnd s) (fromSortKey sortKeyTo);
             s1 = s\<lparr>mData := QVector_erase (mData s) it itEnd\<rparr>
         in if mAutoSqueeze s1 then performAutoSqueeze s1 totalAlloc else s1))"

definition remove_key :: "QCPDataContainer \<Rightarrow> real \<Rightarrow> int \<Rightarrow> QCPDataContainer" where
  "remove_key s k totalAlloc =
     (let it = std_lower_bound (mData s) (constBegin s) (constEnd s) (fromSortKey k);
          s1 = (if it \<noteq> constEnd s \<and> sortKey (deref s it) = k then
                  (if it = constBegin s then s\<lparr>mPreallocSize := mPreallocSize s + 1\<rparr>
                   else s\<lparr>mData := QVector_erase (mData s) it (it + 1)\<rparr>)
                else s)
      in if mAutoSqueeze s1 then performAutoSqueeze s1 totalAlloc else s1)"

definition findBegin :: "QCPDataContainer \<Rightarrow> real \<Rightarrow> bool \<Rightarrow> int" where
  "findBegin s k expandedRange =
     (if isEmpty s then constEnd s
      else
        (let it = std_lower_bound (mData s) (constBegin s) (constEnd s) (fromSortKey k)
         in if expandedRange \<and> it \<noteq> constBegin s then it - 1 else it))"

definition findEnd :: "QCPDataContainer \<Rightarrow> real \<Rightarrow> bool \<Rightarrow> int" where
  "findEnd s k expandedRange =
     (if isEmpty s then constEnd s
      else
        (let it = std_upper_bound (mData s) (constBegin s) (constEnd s) (fromSortKey k)
         in if expandedRange \<and> it \<noteq> constEnd s then it + 1 else it))"

section \<open>Invariants\<close>

text \<open>I3: the front slack lies inside the buffer.\<close>

definition wellformed :: "QCPDataContainer \<Rightarrow> bool" where
  "wellformed s = (0 \<le> mPreallocSize s \<and> mPreallocSize s \<le> int (length (mData s)))"

text \<open>I1: the live range is non-decreasing under the sort key.\<close>

definition sorted_c :: "QCPDataContainer \<Rightarrow> bool" where
  "sorted_c s = sorted (map sortKey (live s))"

text \<open>A valid store: I1 and I3 together.\<close>

definition valid :: "QCPDataContainer \<Rightarrow> bool" where
  "valid s = (wellformed s \<and> sorted_c s)"

section \<open>Binary search on a sorted range\<close>

declare lower_bound_loop.simps [simp del] upper_bound_loop.simps [simp del]

lemma live_drop: "live s = drop (nat (mPreallocSize s)) (mData s)"
  by (simp add: live_def slice_def constBegin_def constEnd_def)

lemma length_live: "wellformed s \<Longrightarrow> int (length (live s)) = size_c s"
  by (simp add: live_drop wellformed_def size_c_def of_nat_diff nat_le_iff)

lemma live_nth: "wellformed s \<Longrightarrow> 0 \<le> i \<Longrightarrow> i < size_c s \<Longrightarrow> mData s ! nat (mPreallocSize s + i) = live s ! nat i"
  apply (simp add: live_drop wellformed_def size_c_def)
  apply (simp add: nat_add_distrib)
  done

lemma lower_bound_loop_spec:
  assumes "0 \<le> first" 
    and "\<forall>i j. first \<le> i \<and> i \<le> j \<and> j < first + len \<longrightarrow> sortKey (buf ! nat i) \<le> sortKey (buf ! nat j)"
  shows "first \<le> lower_bound_loop buf v first len \<and> lower_bound_loop buf v first len \<le> first + max 0 len \<and>
     (\<forall>i. first \<le> i \<and> i < lower_bound_loop buf v first len \<longrightarrow> sortKey (buf ! nat i) < sortKey v) \<and>
     (\<forall>i. lower_bound_loop buf v first len \<le> i \<and> i < first + len \<longrightarrow> \<not> sortKey (buf ! nat i) < sortKey v)"
  using assms
proof (induction buf v first len rule: lower_bound_loop.induct)
  case (1 buf v first len)
  show ?case
  proof (cases "0 < len")
    case False
    then show ?thesis by (simp add: lower_bound_loop.simps[of buf v first len])
  next
    case True
    define half where "half = len div 2"
    define middle where "middle = first + half"
    have hb: "0 \<le> half" "half < len" using True by (auto simp: half_def)
    show ?thesis
    proof (cases "qcpLessThanSortKey (buf ! nat middle) v")
      case lt: True
      have eq: "lower_bound_loop buf v first len = lower_bound_loop buf v (middle + 1) (len - half - 1)"
        using True lt by (simp add: lower_bound_loop.simps[of buf v first len] half_def middle_def Let_def)
      have srt: "\<forall>i j. middle + 1 \<le> i \<and> i \<le> j \<and> j < middle + 1 + (len - half - 1) \<longrightarrow> sortKey (buf ! nat i) \<le> sortKey (buf ! nat j)"
        using "1.prems"(2) hb by (auto simp: middle_def)
      have IH: "middle + 1 \<le> lower_bound_loop buf v (middle + 1) (len - half - 1) \<and>
         lower_bound_loop buf v (middle + 1) (len - half - 1) \<le> middle + 1 + max 0 (len - half - 1) \<and>
     (\<forall>i. middle + 1 \<le> i \<and> i < lower_bound_loop buf v (middle + 1) (len - half - 1) \<longrightarrow> sortKey (buf ! nat i) < sortKey v) \<and>
     (\<forall>i. lower_bound_loop buf v (middle + 1) (len - half - 1) \<le> i \<and> i < middle + 1 + (len - half - 1) \<longrightarrow> \<not> sortKey (buf ! nat i) < sortKey v)"
        using "1.IH"(1)[OF True half_def middle_def lt _ srt] "1.prems"(1) hb by (simp add: middle_def)
      have low: "\<forall>i. first \<le> i \<and> i \<le> middle \<longrightarrow> sortKey (buf ! nat i) < sortKey v"
      proof (intro allI impI)
        fix i assume "first \<le> i \<and> i \<le> middle"
        then have "sortKey (buf ! nat i) \<le> sortKey (buf ! nat middle)"
          using "1.prems"(2) hb by (auto simp: middle_def)
        then show "sortKey (buf ! nat i) < sortKey v" using lt by (simp add: qcpLessThanSortKey_def)
      qed
      show ?thesis unfolding eq using IH low hb
        apply (intro conjI)
           apply (simp add: middle_def)
          apply (simp add: middle_def)
         apply (intro allI impI)
         subgoal for i by (cases "i \<le> middle") auto
        apply (simp add: middle_def)
        done
    next
      case ge: False
      have eq: "lower_bound_loop buf v first len = lower_bound_loop buf v first half"
        using True ge by (simp add: lower_bound_loop.simps[of buf v first len] half_def middle_def Let_def)
      have srt: "\<forall>i j. first \<le> i \<and> i \<le> j \<and> j < first + half \<longrightarrow> sortKey (buf ! nat i) \<le> sortKey (buf ! nat j)"
        using "1.prems"(2) hb by auto
      have IH: "first \<le> lower_bound_loop buf v first half \<and> lower_bound_loop buf v first half \<le> first + max 0 half \<and>
     (\<forall>i. first \<le> i \<and> i < lower_bound_loop buf v first half \<longrightarrow> sortKey (buf ! nat i) < sortKey v) \<and>
     (\<forall>i. lower_bound_loop buf v first half \<le> i \<and> i < first + half \<longrightarrow> \<not> sortKey (buf ! nat i) < sortKey v)"
        using "1.IH"(2)[OF True half_def middle_def ge "1.prems"(1) srt] .
      have high: "\<forall>i. middle \<le> i \<and> i < first + len \<longrightarrow> \<not> sortKey (buf ! nat i) < sortKey v"
      proof (intro allI impI)
        fix i assume "middle \<le> i \<and> i < first + len"
        then have "sortKey (buf ! nat middle) \<le> sortKey (buf ! nat i)"
          using "1.prems"(2) hb by (auto simp: middle_def)
        then show "\<not> sortKey (buf ! nat i) < sortKey v" using ge by (simp add: qcpLessThanSortKey_def)
      qed
      show ?thesis unfolding eq using IH high hb
        apply (intro conjI)
           apply simp
          apply simp
         apply simp
        apply (intro allI impI)
        subgoal for i by (cases "middle \<le> i") (auto simp: middle_def)
        done
    qed
  qed
qed

lemma upper_bound_loop_spec:
  assumes "0 \<le> first" 
    and "\<forall>i j. first \<le> i \<and> i \<le> j \<and> j < first + len \<longrightarrow> sortKey (buf ! nat i) \<le> sortKey (buf ! nat j)"
  shows "first \<le> upper_bound_loop buf v first len \<and> upper_bound_loop buf v first len \<le> first + max 0 len \<and>
     (\<forall>i. first \<le> i \<and> i < upper_bound_loop buf v first len \<longrightarrow> \<not> sortKey v < sortKey (buf ! nat i)) \<and>
     (\<forall>i. upper_bound_loop buf v first len \<le> i \<and> i < first + len \<longrightarrow> sortKey v < sortKey (buf ! nat i))"
  using assms
proof (induction buf v first len rule: upper_bound_loop.induct)
  case (1 buf v first len)
  show ?case
  proof (cases "0 < len")
    case False
    then show ?thesis by (simp add: upper_bound_loop.simps[of buf v first len])
  next
    case True
    define half where "half = len div 2"
    define middle where "middle = first + half"
    have hb: "0 \<le> half" "half < len" using True by (auto simp: half_def)
    show ?thesis
    proof (cases "qcpLessThanSortKey v (buf ! nat middle)")
      case ge: False
      have eq: "upper_bound_loop buf v first len = upper_bound_loop buf v (middle + 1) (len - half - 1)"
        using True ge by (simp add: upper_bound_loop.simps[of buf v first len] half_def middle_def Let_def)
      have srt: "\<forall>i j. middle + 1 \<le> i \<and> i \<le> j \<and> j < middle + 1 + (len - half - 1) \<longrightarrow> sortKey (buf ! nat i) \<le> sortKey (buf ! nat j)"
        using "1.prems"(2) hb by (auto simp: middle_def)
      have IH: "middle + 1 \<le> upper_bound_loop buf v (middle + 1) (len - half - 1) \<and>
         upper_bound_loop buf v (middle + 1) (len - half - 1) \<le> middle + 1 + max 0 (len - half - 1) \<and>
     (\<forall>i. middle + 1 \<le> i \<and> i < upper_bound_loop buf v (middle + 1) (len - half - 1) \<longrightarrow> \<not> sortKey v < sortKey (buf ! nat i)) \<and>
     (\<forall>i. upper_bound_loop buf v (middle + 1) (len - half - 1) \<le> i \<and> i < middle + 1 + (len - half - 1) \<longrightarrow> sortKey v < sortKey (buf ! nat i))"
        using "1.IH"(2)[OF True half_def middle_def ge _ srt] "1.prems"(1) hb by (simp add: middle_def)
      have low: "\<forall>i. first \<le> i \<and> i \<le> middle \<longrightarrow> \<not> sortKey v < sortKey (buf ! nat i)"
      proof (intro allI impI)
        fix i assume "first \<le> i \<and> i \<le> middle"
        then have "sortKey (buf ! nat i) \<le> sortKey (buf ! nat middle)"
          using "1.prems"(2) hb by (auto simp: middle_def)
        then show "\<not> sortKey v < sortKey (buf ! nat i)" using ge by (simp add: qcpLessThanSortKey_def)
      qed
      show ?thesis unfolding eq using IH low hb
        apply (intro conjI)
           apply (simp add: middle_def)
          apply (simp add: middle_def)
         apply (intro allI impI)
         subgoal for i by (cases "i \<le> middle") auto
        apply (simp add: middle_def)
        done
    next
      case lt: True
      have eq: "upper_bound_loop buf v first len = upper_bound_loop buf v first half"
        using True lt by (simp add: upper_bound_loop.simps[of buf v first len] half_def middle_def Let_def)
      have srt: "\<forall>i j. first \<le> i \<and> i \<le> j \<and> j < first + half \<longrightarrow> sortKey (buf ! nat i) \<le> sortKey (buf ! nat j)"
        using "1.prems"(2) hb by auto
      have IH: "first \<le> upper_bound_loop buf v first half \<and> upper_bound_loop buf v first half \<le> first + max 0 half \<and>
     (\<forall>i. first \<le> i \<and> i < upper_bound_loop buf v first half \<longrightarrow> \<not> sortKey v < sortKey (buf ! nat i)) \<and>
     (\<forall>i. upper_bound_loop buf v first half \<le> i \<and> i < first + half \<longrightarrow> sortKey v < sortKey (buf ! nat i))"
        using "1.IH"(1)[OF True half_def middle_def lt "1.prems"(1) srt] .
      have high: "\<forall>i. middle \<le> i \<and> i < first + len \<longrightarrow> sortKey v < sortKey (buf ! nat i)"
      proof (intro allI impI)
        fix i assume "middle \<le> i \<and> i < first + len"
        then have "sortKey (buf ! nat middle) \<le> sortKey (buf ! nat i)"
          using "1.prems"(2) hb by (auto simp: middle_def)
        then show "sortKey v < sortKey (buf ! nat i)" using lt by (simp add: qcpLessThanSortKey_def)
      qed
      show ?thesis unfolding eq using IH high hb
        apply (intro conjI)
           apply simp
          apply simp
         apply simp
        apply (intro allI impI)
        subgoal for i by (cases "middle \<le> i") (auto simp: middle_def)
        done
    qed
  qed
qed

text \<open>A split point of a list: everything before satisfies P, nothing after does.\<close>

lemma split_point_filter:
  assumes "r \<le> length xs"
    and "\<forall>i<r. P (xs ! i)"
    and "\<forall>i. r \<le> i \<and> i < length xs \<longrightarrow> \<not> P (xs ! i)"
  shows "take r xs = filter P xs \<and> drop r xs = filter (\<lambda>x. \<not> P x) xs"
proof -
  have a: "filter P (take r xs) = take r xs"
    using assms by (auto simp: filter_id_conv in_set_conv_nth)
  have b: "filter P (drop r xs) = []"
    using assms by (auto simp: filter_empty_conv in_set_conv_nth)
  have c: "filter (\<lambda>x. \<not> P x) (take r xs) = []"
    using assms by (auto simp: filter_empty_conv in_set_conv_nth)
  have d: "filter (\<lambda>x. \<not> P x) (drop r xs) = drop r xs"
    using assms by (auto simp: filter_id_conv in_set_conv_nth)
  have "filter P xs = filter P (take r xs @ drop r xs)" by simp
  also have "\<dots> = take r xs" unfolding filter_append a b by simp
  finally have 1: "take r xs = filter P xs" by simp
  have "filter (\<lambda>x. \<not> P x) xs = filter (\<lambda>x. \<not> P x) (take r xs @ drop r xs)" by simp
  also have "\<dots> = drop r xs" unfolding filter_append c d by simp
  finally show ?thesis using 1 by simp
qed

lemma buf_sorted_range:
  assumes "0 \<le> p" and "sorted (map sortKey (drop (nat p) buf))"
  shows "\<forall>i j. p \<le> i \<and> i \<le> j \<and> j < p + (int (length buf) - p)
           \<longrightarrow> sortKey (buf ! nat i) \<le> sortKey (buf ! nat j)"
proof (intro allI impI)
  fix i j assume h: "p \<le> i \<and> i \<le> j \<and> j < p + (int (length buf) - p)"
  define a where "a = nat i - nat p"
  define b where "b = nat j - nat p"
  have ab: "a \<le> b" "b < length (map sortKey (drop (nat p) buf))"
    using h assms(1) by (auto simp: a_def b_def)
  have ni: "nat i = nat p + a" "nat j = nat p + b"
    using h assms(1) by (auto simp: a_def b_def)
  have "map sortKey (drop (nat p) buf) ! a \<le> map sortKey (drop (nat p) buf) ! b"
    using sorted_nth_mono[OF assms(2) ab] .
  then show "sortKey (buf ! nat i) \<le> sortKey (buf ! nat j)"
    using ab ni by simp
qed

lemma std_lower_bound_buf:
  assumes "0 \<le> p" "p \<le> int (length buf)" "sorted (map sortKey (drop (nat p) buf))"
  shows "std_lower_bound buf p (int (length buf)) v
           = p + int (length (filter (\<lambda>x. sortKey x < sortKey v) (drop (nat p) buf)))
       \<and> take (length (filter (\<lambda>x. sortKey x < sortKey v) (drop (nat p) buf))) (drop (nat p) buf)
           = filter (\<lambda>x. sortKey x < sortKey v) (drop (nat p) buf)
       \<and> drop (length (filter (\<lambda>x. sortKey x < sortKey v) (drop (nat p) buf))) (drop (nat p) buf)
           = filter (\<lambda>x. \<not> sortKey x < sortKey v) (drop (nat p) buf)"
proof -
  define xs where "xs = drop (nat p) buf"
  define lb where "lb = lower_bound_loop buf v p (int (length buf) - p)"
  define r where "r = nat (lb - p)"
  have spec: "p \<le> lb \<and> lb \<le> p + max 0 (int (length buf) - p) \<and>
     (\<forall>i. p \<le> i \<and> i < lb \<longrightarrow> sortKey (buf ! nat i) < sortKey v) \<and>
     (\<forall>i. lb \<le> i \<and> i < p + (int (length buf) - p) \<longrightarrow> \<not> sortKey (buf ! nat i) < sortKey v)"
    unfolding lb_def
    by (rule lower_bound_loop_spec[OF assms(1) buf_sorted_range[OF assms(1) assms(3)]])
  have lbr: "lb = p + int r" using spec by (simp add: r_def)
  have rlen: "r \<le> length xs" using spec assms(1,2) by (simp add: r_def xs_def) arith
  have nth: "xs ! i = buf ! nat (p + int i)" if "i < length xs" for i
    using that assms(1,2) by (simp add: xs_def nat_add_distrib)
  have lo: "\<forall>i<r. sortKey (xs ! i) < sortKey v"
  proof (intro allI impI)
    fix i assume "i < r"
    then have "i < length xs" "p \<le> p + int i \<and> p + int i < lb" using rlen lbr by auto
    then show "sortKey (xs ! i) < sortKey v" using spec nth by simp
  qed
  have hi: "\<forall>i. r \<le> i \<and> i < length xs \<longrightarrow> \<not> sortKey (xs ! i) < sortKey v"
  proof (intro allI impI)
    fix i assume h: "r \<le> i \<and> i < length xs"
    then have "lb \<le> p + int i \<and> p + int i < p + (int (length buf) - p)"
      using lbr assms(1,2) by (simp add: xs_def) arith
    then show "\<not> sortKey (xs ! i) < sortKey v" using spec nth h by simp
  qed
  have sp: "take r xs = filter (\<lambda>x. sortKey x < sortKey v) xs \<and>
            drop r xs = filter (\<lambda>x. \<not> sortKey x < sortKey v) xs"
    by (rule split_point_filter[OF rlen lo hi])
  have "length (take r xs) = r" using rlen by simp
  then have rL: "length (filter (\<lambda>x. sortKey x < sortKey v) xs) = r" using sp by simp
  show ?thesis
    using sp lbr unfolding rL xs_def[symmetric] std_lower_bound_def lb_def[symmetric] by simp
qed

lemma std_upper_bound_buf:
  assumes "0 \<le> p" "p \<le> int (length buf)" "sorted (map sortKey (drop (nat p) buf))"
  shows "std_upper_bound buf p (int (length buf)) v
           = p + int (length (filter (\<lambda>x. \<not> sortKey v < sortKey x) (drop (nat p) buf)))
       \<and> take (length (filter (\<lambda>x. \<not> sortKey v < sortKey x) (drop (nat p) buf))) (drop (nat p) buf)
           = filter (\<lambda>x. \<not> sortKey v < sortKey x) (drop (nat p) buf)
       \<and> drop (length (filter (\<lambda>x. \<not> sortKey v < sortKey x) (drop (nat p) buf))) (drop (nat p) buf)
           = filter (\<lambda>x. \<not> \<not> sortKey v < sortKey x) (drop (nat p) buf)"
proof -
  define xs where "xs = drop (nat p) buf"
  define ub where "ub = upper_bound_loop buf v p (int (length buf) - p)"
  define r where "r = nat (ub - p)"
  have spec: "p \<le> ub \<and> ub \<le> p + max 0 (int (length buf) - p) \<and>
     (\<forall>i. p \<le> i \<and> i < ub \<longrightarrow> \<not> sortKey v < sortKey (buf ! nat i)) \<and>
     (\<forall>i. ub \<le> i \<and> i < p + (int (length buf) - p) \<longrightarrow> sortKey v < sortKey (buf ! nat i))"
    unfolding ub_def
    by (rule upper_bound_loop_spec[OF assms(1) buf_sorted_range[OF assms(1) assms(3)]])
  have ubr: "ub = p + int r" using spec by (simp add: r_def)
  have rlen: "r \<le> length xs" using spec assms(1,2) by (simp add: r_def xs_def) arith
  have nth: "xs ! i = buf ! nat (p + int i)" if "i < length xs" for i
    using that assms(1,2) by (simp add: xs_def nat_add_distrib)
  have lo: "\<forall>i<r. \<not> sortKey v < sortKey (xs ! i)"
  proof (intro allI impI)
    fix i assume "i < r"
    then have "i < length xs" "p \<le> p + int i \<and> p + int i < ub" using rlen ubr by auto
    then show "\<not> sortKey v < sortKey (xs ! i)" using spec nth by simp
  qed
  have hi: "\<forall>i. r \<le> i \<and> i < length xs \<longrightarrow> \<not> \<not> sortKey v < sortKey (xs ! i)"
  proof (intro allI impI)
    fix i assume h: "r \<le> i \<and> i < length xs"
    then have "ub \<le> p + int i \<and> p + int i < p + (int (length buf) - p)"
      using ubr assms(1,2) by (simp add: xs_def) arith
    then show "\<not> \<not> sortKey v < sortKey (xs ! i)" using spec nth h by simp
  qed
  have sp: "take r xs = filter (\<lambda>x. \<not> sortKey v < sortKey x) xs \<and>
            drop r xs = filter (\<lambda>x. \<not> \<not> sortKey v < sortKey x) xs"
    by (rule split_point_filter[OF rlen lo hi])
  have "length (take r xs) = r" using rlen by simp
  then have rL: "length (filter (\<lambda>x. \<not> sortKey v < sortKey x) xs) = r" using sp by simp
  show ?thesis
    using sp ubr unfolding rL xs_def[symmetric] std_upper_bound_def ub_def[symmetric] by simp
qed

section \<open>Capacity management keeps the logical sequence\<close>

lemma slice_to_end: "slice buf p (int (length buf)) = drop (nat p) buf"
  by (simp add: slice_def)

lemma slice_from_zero: "0 \<le> n \<Longrightarrow> slice buf 0 n = take (nat n) buf"
  by (simp add: slice_def)

lemma squeeze_live: "wellformed s \<Longrightarrow> live (squeeze s a b) = live s"
  by (simp add: squeeze_def live_drop std_copy_def overwrite_def QVector_resize_def
      constBegin_def constEnd_def slice_to_end size_c_def wellformed_def Let_def of_nat_diff nat_le_iff)

lemma squeeze_wellformed: "wellformed s \<Longrightarrow> wellformed (squeeze s a b)"
  by (simp add: squeeze_def wellformed_def Let_def)

lemma squeeze_mAutoSqueeze: "mAutoSqueeze (squeeze s a b) = mAutoSqueeze s"
  by (simp add: squeeze_def Let_def)

lemma performAutoSqueeze_live: "wellformed s \<Longrightarrow> live (performAutoSqueeze s cap) = live s"
  by (simp add: performAutoSqueeze_def Let_def squeeze_live)

lemma performAutoSqueeze_wellformed: "wellformed s \<Longrightarrow> wellformed (performAutoSqueeze s cap)"
  by (simp add: performAutoSqueeze_def Let_def squeeze_wellformed)

lemma schedule_pos: "(4::int) \<le> 2 ^ nat (qBound 4 i 15) - 12"
proof -
  have "4 \<le> nat (qBound 4 i 15)" by (simp add: qBound_def)
  then have "(2::int) ^ 4 \<le> 2 ^ nat (qBound 4 i 15)" by (rule power_increasing) simp
  then show ?thesis by simp
qed

lemma preallocateGrow_grown:
  assumes "wellformed s" and "\<not> m \<le> mPreallocSize s"
  shows "mData (preallocateGrow s m)
           = take (nat (m + (2 ^ nat (qBound 4 (mPreallocIteration s + 4) 15) - 12)))
               (mData s @ replicate (nat (m + (2 ^ nat (qBound 4 (mPreallocIteration s + 4) 15) - 12)
                                          - mPreallocSize s)) DataType_default)
             @ live s"
    and "mPreallocSize (preallocateGrow s m)
           = m + (2 ^ nat (qBound 4 (mPreallocIteration s + 4) 15) - 12)"
    and "mPreallocIteration (preallocateGrow s m) = mPreallocIteration s + 1"
    and "mAutoSqueeze (preallocateGrow s m) = mAutoSqueeze s"
proof -
  define buf where "buf = mData s"
  define p where "p = mPreallocSize s"
  define np where "np = m + (2 ^ nat (qBound 4 (mPreallocIteration s + 4) 15) - 12)"
  define d where "d = np - p"
  define resized where "resized = QVector_resize buf (int (length buf) + d)"
  have p: "0 \<le> p" "p \<le> int (length buf)" using assms(1) by (auto simp: wellformed_def p_def buf_def)
  have dpos: "0 < d" using assms(2) schedule_pos[of "mPreallocIteration s + 4"]
    by (simp add: d_def np_def p_def)
  have res: "resized = buf @ replicate (nat d) DataType_default"
    using dpos by (simp add: resized_def QVector_resize_def nat_add_distrib)
  have len: "int (length resized) = int (length buf) + d" using dpos by (simp add: res)
  have sl: "slice resized p (int (length resized) - d) = drop (nat p) buf"
    using p by (simp add: len slice_def res of_nat_diff nat_le_iff)
  have pos: "int (length resized) - (int (length resized) - d - p) = np" by (simp add: d_def)
  have full: "nat np + length (drop (nat p) buf) = length resized"
    using p dpos by (simp add: res d_def)
  have mv: "std_copy_backward resized p (int (length resized) - d) (int (length resized))
            = take (nat np) resized @ drop (nat p) buf"
    unfolding std_copy_backward_def pos sl overwrite_def using full by simp
  show "mData (preallocateGrow s m)
           = take (nat (m + (2 ^ nat (qBound 4 (mPreallocIteration s + 4) 15) - 12)))
               (mData s @ replicate (nat (m + (2 ^ nat (qBound 4 (mPreallocIteration s + 4) 15) - 12)
                                          - mPreallocSize s)) DataType_default)
             @ live s"
    using assms(2) mv
    by (simp add: preallocateGrow_def Let_def buf_def[symmetric] p_def[symmetric]
        np_def[symmetric] d_def[symmetric] resized_def[symmetric] res live_drop)
  show "mPreallocSize (preallocateGrow s m)
           = m + (2 ^ nat (qBound 4 (mPreallocIteration s + 4) 15) - 12)"
    using assms(2) by (simp add: preallocateGrow_def Let_def)
  show "mPreallocIteration (preallocateGrow s m) = mPreallocIteration s + 1"
    using assms(2) by (simp add: preallocateGrow_def Let_def)
  show "mAutoSqueeze (preallocateGrow s m) = mAutoSqueeze s"
    using assms(2) by (simp add: preallocateGrow_def Let_def)
qed

lemma preallocateGrow_live:
  assumes "wellformed s"
  shows "live (preallocateGrow s m) = live s"
proof (cases "m \<le> mPreallocSize s")
  case True
  then show ?thesis by (simp add: preallocateGrow_def)
next
  case False
  define np where "np = m + (2 ^ nat (qBound 4 (mPreallocIteration s + 4) 15) - 12)"
  have b: "0 \<le> np" "np - mPreallocSize s > 0" "0 \<le> mPreallocSize s" "mPreallocSize s \<le> int (length (mData s))"
    using False assms schedule_pos[of "mPreallocIteration s + 4"] by (auto simp: np_def wellformed_def)
  have "nat np \<le> length (mData s @ replicate (nat (np - mPreallocSize s)) DataType_default)"
    using b by simp
  then show ?thesis
    unfolding live_drop[of "preallocateGrow s m"] preallocateGrow_grown(1,2)[OF assms False] np_def[symmetric]
    by (simp add: live_drop)
qed

lemma preallocateGrow_wellformed:
  assumes "wellformed s"
  shows "wellformed (preallocateGrow s m)"
proof (cases "m \<le> mPreallocSize s")
  case True
  then show ?thesis using assms by (simp add: preallocateGrow_def)
next
  case False
  define np where "np = m + (2 ^ nat (qBound 4 (mPreallocIteration s + 4) 15) - 12)"
  have b: "0 \<le> np" "np - mPreallocSize s > 0" "0 \<le> mPreallocSize s" "mPreallocSize s \<le> int (length (mData s))"
    using False assms schedule_pos[of "mPreallocIteration s + 4"] by (auto simp: np_def wellformed_def)
  have "nat np \<le> length (mData s @ replicate (nat (np - mPreallocSize s)) DataType_default)"
    using b by simp
  then show ?thesis
    unfolding wellformed_def preallocateGrow_grown(1,2)[OF assms False] np_def[symmetric]
    using b by simp
qed

lemma preallocateGrow_enough:
  "m \<le> mPreallocSize (preallocateGrow s m)"
  using schedule_pos[of "mPreallocIteration s + 4"]
  by (simp add: preallocateGrow_def Let_def)

section \<open>Searching the live range\<close>

lemma sortKey_fromSortKey: "sortKey (fromSortKey k) = k"
  by (simp add: fromSortKey_def)

lemma lower_bound_live:
  assumes "wellformed s" "sorted_c s"
  shows "std_lower_bound (mData s) (constBegin s) (constEnd s) v
           = mPreallocSize s + int (length (filter (\<lambda>x. sortKey x < sortKey v) (live s)))"
    and "take (length (filter (\<lambda>x. sortKey x < sortKey v) (live s))) (live s)
           = filter (\<lambda>x. sortKey x < sortKey v) (live s)"
    and "drop (length (filter (\<lambda>x. sortKey x < sortKey v) (live s))) (live s)
           = filter (\<lambda>x. \<not> sortKey x < sortKey v) (live s)"
  using std_lower_bound_buf[of "mPreallocSize s" "mData s" v] assms
  by (simp_all add: wellformed_def sorted_c_def live_drop constBegin_def constEnd_def)

lemma upper_bound_live:
  assumes "wellformed s" "sorted_c s"
  shows "std_upper_bound (mData s) (constBegin s) (constEnd s) v
           = mPreallocSize s + int (length (filter (\<lambda>x. \<not> sortKey v < sortKey x) (live s)))"
    and "take (length (filter (\<lambda>x. \<not> sortKey v < sortKey x) (live s))) (live s)
           = filter (\<lambda>x. \<not> sortKey v < sortKey x) (live s)"
    and "drop (length (filter (\<lambda>x. \<not> sortKey v < sortKey x) (live s))) (live s)
           = filter (\<lambda>x. sortKey v < sortKey x) (live s)"
  using std_upper_bound_buf[of "mPreallocSize s" "mData s" v] assms
  by (simp_all add: wellformed_def sorted_c_def live_drop constBegin_def constEnd_def)

lemma length_filter_live:
  "wellformed s \<Longrightarrow> mPreallocSize s + int (length (filter P (live s))) \<le> int (length (mData s))"
proof -
  assume w: "wellformed s"
  have "int (length (filter P (live s))) \<le> int (length (live s))" by simp
  also have "\<dots> = int (length (mData s)) - mPreallocSize s"
    using length_live[OF w] by (simp add: size_c_def)
  finally show ?thesis by linarith
qed

section \<open>What the removals keep\<close>

lemma removeBefore_live:
  assumes "wellformed s" "sorted_c s"
  shows "live (removeBefore s k cap) = filter (\<lambda>x. \<not> sortKey x < k) (live s)"
    and "wellformed (removeBefore s k cap)"
proof -
  define L where "L = length (filter (\<lambda>x. sortKey x < k) (live s))"
  define s1 where "s1 = s\<lparr>mPreallocSize := mPreallocSize s + int L\<rparr>"
  have rb: "removeBefore s k cap = (if mAutoSqueeze s1 then performAutoSqueeze s1 cap else s1)"
    using lower_bound_live(1)[OF assms, of "fromSortKey k"]
    by (simp add: removeBefore_def Let_def sortKey_fromSortKey L_def s1_def constBegin_def)
  have w1: "wellformed s1"
    using assms(1) length_filter_live[OF assms(1), of "\<lambda>x. sortKey x < k"]
    by (simp add: s1_def wellformed_def L_def)
  have "live s1 = drop L (live s)"
    using assms(1) by (simp add: s1_def live_drop wellformed_def nat_add_distrib add.commute)
  then have l1: "live s1 = filter (\<lambda>x. \<not> sortKey x < k) (live s)"
    using lower_bound_live(3)[OF assms, of "fromSortKey k"] by (simp add: L_def sortKey_fromSortKey)
  show "live (removeBefore s k cap) = filter (\<lambda>x. \<not> sortKey x < k) (live s)"
    using l1 w1 by (simp add: rb performAutoSqueeze_live)
  show "wellformed (removeBefore s k cap)"
    using w1 by (simp add: rb performAutoSqueeze_wellformed)
qed

lemma removeAfter_live:
  assumes "wellformed s" "sorted_c s"
  shows "live (removeAfter s k cap) = filter (\<lambda>x. \<not> k < sortKey x) (live s)"
    and "wellformed (removeAfter s k cap)"
proof -
  define U where "U = length (filter (\<lambda>x. \<not> k < sortKey x) (live s))"
  define s1 where "s1 = s\<lparr>mData := take (nat (mPreallocSize s) + U) (mData s)\<rparr>"
  have ra: "removeAfter s k cap = (if mAutoSqueeze s1 then performAutoSqueeze s1 cap else s1)"
    using upper_bound_live(1)[OF assms, of "fromSortKey k"] assms(1)
    by (simp add: removeAfter_def Let_def sortKey_fromSortKey U_def s1_def constEnd_def
        QVector_erase_def nat_add_distrib wellformed_def)
  have w1: "wellformed s1"
    using assms(1) length_filter_live[OF assms(1), of "\<lambda>x. \<not> k < sortKey x"]
    by (simp add: s1_def wellformed_def U_def)
  have "live s1 = take U (live s)"
    by (simp add: s1_def live_drop drop_take)
  then have l1: "live s1 = filter (\<lambda>x. \<not> k < sortKey x) (live s)"
    using upper_bound_live(2)[OF assms, of "fromSortKey k"] by (simp add: U_def sortKey_fromSortKey)
  show "live (removeAfter s k cap) = filter (\<lambda>x. \<not> k < sortKey x) (live s)"
    using l1 w1 by (simp add: ra performAutoSqueeze_live)
  show "wellformed (removeAfter s k cap)"
    using w1 by (simp add: ra performAutoSqueeze_wellformed)
qed

lemma sorted_filter_key: "sorted (map sortKey xs) \<Longrightarrow> sorted (map sortKey (filter P xs))"
  by (induction xs) auto

section \<open>Runs of equal keys\<close>

lemma take_filter_drop:
  assumes "take r xs = filter P xs"
  shows "drop r xs = filter (\<lambda>x. \<not> P x) xs"
proof -
  have "filter P xs = filter P (take r xs @ drop r xs)" by simp
  also have "\<dots> = filter P xs @ filter P (drop r xs)" unfolding filter_append assms by simp
  finally have e: "filter P (drop r xs) = []" by simp
  have "filter (\<lambda>x. \<not> P x) xs = filter (\<lambda>x. \<not> P x) (take r xs @ drop r xs)" by simp
  also have "\<dots> = filter (\<lambda>x. \<not> P x) (drop r xs)" unfolding filter_append assms by simp
  also have "\<dots> = drop r xs" using e by (simp add: filter_empty_conv filter_id_conv)
  finally show ?thesis by simp
qed

lemma equal_run:
  fixes k :: real
  assumes lo: "take L xs = filter (\<lambda>x. sortKey x < k) xs"
    and hi: "take U xs = filter (\<lambda>x. \<not> k < sortKey x) xs"
    and L: "L = length (filter (\<lambda>x. sortKey x < k) xs)"
    and U: "U = length (filter (\<lambda>x. \<not> k < sortKey x) xs)"
  shows "L \<le> U" and "take (U - L) (drop L xs) = filter (\<lambda>x. sortKey x = k) xs"
proof -
  define A where "A = filter (\<lambda>x. \<not> k < sortKey x) xs"
  have PA: "filter (\<lambda>x. sortKey x < k) A = filter (\<lambda>x. sortKey x < k) xs"
    unfolding A_def filter_filter by (rule filter_cong) auto
  have "length (filter (\<lambda>x. sortKey x < k) A) \<le> length A" by (rule length_filter_le)
  then show LU: "L \<le> U" unfolding PA by (simp add: L U A_def)
  have "take L A = take L (take U xs)" by (simp add: A_def hi)
  also have "\<dots> = take L xs" using LU by (simp add: min_def)
  finally have "take L A = filter (\<lambda>x. sortKey x < k) A" by (simp add: lo PA)
  then have "drop L A = filter (\<lambda>x. \<not> sortKey x < k) A" by (rule take_filter_drop)
  also have "\<dots> = filter (\<lambda>x. sortKey x = k) xs"
    unfolding A_def filter_filter by (rule filter_cong) auto
  finally have "drop L (take U xs) = filter (\<lambda>x. sortKey x = k) xs" by (simp add: A_def hi)
  then show "take (U - L) (drop L xs) = filter (\<lambda>x. sortKey x = k) xs"
    by (simp add: drop_take)
qed

lemma sorted_take_drop:
  assumes "sorted (map sortKey xs)" "a \<le> b"
  shows "sorted (map sortKey (take a xs @ drop b xs))"
proof -
  have "\<forall>x\<in>set (take a xs). \<forall>y\<in>set (drop b xs). sortKey x \<le> sortKey y"
  proof (intro ballI)
    fix x y assume "x \<in> set (take a xs)" "y \<in> set (drop b xs)"
    then obtain i j where i: "i < length (take a xs)" "take a xs ! i = x"
      and j: "j < length (drop b xs)" "drop b xs ! j = y"
      by (auto simp: in_set_conv_nth)
    have "map sortKey xs ! i \<le> map sortKey xs ! (b + j)"
      using i(1) j(1) assms(2) by (intro sorted_nth_mono[OF assms(1)]) auto
    then show "sortKey x \<le> sortKey y" using i j by auto
  qed
  moreover have "sorted (map sortKey (take a xs))" "sorted (map sortKey (drop b xs))"
    using assms(1) by (simp_all add: take_map[symmetric] drop_map[symmetric] sorted_wrt_take sorted_wrt_drop)
  ultimately show ?thesis by (auto simp: sorted_append)
qed

lemma isEmpty_live: "wellformed s \<Longrightarrow> isEmpty s \<longleftrightarrow> live s = []"
  using length_live[of s] by (auto simp: isEmpty_def)

lemma deref_live:
  "wellformed s \<Longrightarrow> i < length (live s) \<Longrightarrow> deref s (mPreallocSize s + int i) = live s ! i"
  by (simp add: deref_def live_drop wellformed_def nat_add_distrib)

lemma deref_begin: "wellformed s \<Longrightarrow> live s \<noteq> [] \<Longrightarrow> deref s (constBegin s) = hd (live s)"
  using deref_live[of s 0] by (simp add: constBegin_def hd_conv_nth)

lemma deref_end: "wellformed s \<Longrightarrow> live s \<noteq> [] \<Longrightarrow> deref s (constEnd s - 1) = last (live s)"
proof -
  assume w: "wellformed s" and ne: "live s \<noteq> []"
  have "constEnd s - 1 = mPreallocSize s + int (length (live s) - 1)"
    using length_live[OF w] ne by (simp add: constEnd_def size_c_def of_nat_diff Suc_leI)
  then show ?thesis using deref_live[OF w, of "length (live s) - 1"] ne
    by (simp add: last_conv_nth)
qed

lemma remove_range_live:
  assumes "wellformed s" "sorted_c s"
  shows "live (remove_range s a b cap)
           = (if a \<ge> b then live s
              else filter (\<lambda>x. sortKey x < a) (live s) @ filter (\<lambda>x. b < sortKey x) (live s))"
    and "wellformed (remove_range s a b cap)"
proof -
  define xs where "xs = live s"
  define p where "p = mPreallocSize s"
  define L where "L = length (filter (\<lambda>x. sortKey x < a) xs)"
  define U where "U = length (filter (\<lambda>x. \<not> b < sortKey x) (drop L xs))"
  define s1 where "s1 = s\<lparr>mData := QVector_erase (mData s) (p + int L) (p + int L + int U)\<rparr>"
  have p: "0 \<le> p" "p \<le> int (length (mData s))" using assms(1) by (auto simp: wellformed_def p_def)
  have lb: "std_lower_bound (mData s) (constBegin s) (constEnd s) (fromSortKey a) = p + int L"
    using lower_bound_live(1)[OF assms, of "fromSortKey a"]
    by (simp add: sortKey_fromSortKey L_def xs_def p_def)
  have tL: "take L xs = filter (\<lambda>x. sortKey x < a) xs"
    and dL: "drop L xs = filter (\<lambda>x. \<not> sortKey x < a) xs"
    using lower_bound_live(2,3)[OF assms, of "fromSortKey a"]
    by (simp_all add: sortKey_fromSortKey L_def xs_def)
  have Llen: "p + int L \<le> int (length (mData s))"
    using length_filter_live[OF assms(1), of "\<lambda>x. sortKey x < a"] by (simp add: L_def xs_def p_def)
  have dr: "drop (nat (p + int L)) (mData s) = drop L xs"
    using p by (simp add: xs_def live_drop p_def nat_add_distrib add.commute)
  have srt: "sorted (map sortKey (drop (nat (p + int L)) (mData s)))"
    unfolding dr dL using assms(2) by (simp add: sorted_c_def xs_def sorted_filter_key)
  have ub0: "std_upper_bound (mData s) (p + int L) (int (length (mData s))) (fromSortKey b)
           = p + int L + int U
       \<and> take U (drop L xs) = filter (\<lambda>x. \<not> b < sortKey x) (drop L xs)
       \<and> drop U (drop L xs) = filter (\<lambda>x. \<not> \<not> b < sortKey x) (drop L xs)"
    using std_upper_bound_buf[OF _ Llen srt, of "fromSortKey b"] p
    by (simp add: sortKey_fromSortKey dr U_def)
  have Ulen: "L + U \<le> length xs"
  proof -
    have "L \<le> length xs" by (simp add: L_def)
    moreover have "U \<le> length (drop L xs)" unfolding U_def by (rule length_filter_le)
    ultimately show ?thesis by simp
  qed
  have xlen: "int (length xs) = int (length (mData s)) - p"
    using length_live[OF assms(1)] by (simp add: xs_def size_c_def p_def)
  have rr: "remove_range s a b cap =
      (if a \<ge> b \<or> isEmpty s then s
       else if mAutoSqueeze s1 then performAutoSqueeze s1 cap else s1)"
    using lb ub0 by (simp add: remove_range_def Let_def s1_def constEnd_def)
  have w1: "wellformed s1"
    using p Ulen xlen by (simp add: s1_def wellformed_def QVector_erase_def p_def[symmetric])
  have "live s1 = take L xs @ drop (L + U) xs"
    using p Ulen xlen
    by (simp add: s1_def live_drop QVector_erase_def p_def[symmetric] xs_def nat_add_distrib
        drop_take ac_simps)
  also have "drop (L + U) xs = drop U (drop L xs)" by (simp add: add.commute)
  also have "\<dots> = filter (\<lambda>x. b < sortKey x) (filter (\<lambda>x. \<not> sortKey x < a) xs)"
    using ub0 by (simp add: dL)
  finally have l1: "live s1 = filter (\<lambda>x. sortKey x < a) xs
                      @ filter (\<lambda>x. b < sortKey x) (filter (\<lambda>x. \<not> sortKey x < a) xs)"
    by (simp add: tL)
  have l1': "a < b \<Longrightarrow> live s1 = filter (\<lambda>x. sortKey x < a) xs @ filter (\<lambda>x. b < sortKey x) xs"
  proof -
    assume ab: "a < b"
    have "filter (\<lambda>x. b < sortKey x) (filter (\<lambda>x. \<not> sortKey x < a) xs) = filter (\<lambda>x. b < sortKey x) xs"
      unfolding filter_filter using ab by (intro filter_cong) auto
    then show ?thesis using l1 by simp
  qed
  show "live (remove_range s a b cap)
           = (if a \<ge> b then live s
              else filter (\<lambda>x. sortKey x < a) (live s) @ filter (\<lambda>x. b < sortKey x) (live s))"
    using l1' w1 isEmpty_live[OF assms(1)]
    by (auto simp: rr performAutoSqueeze_live xs_def)
  show "wellformed (remove_range s a b cap)"
    using w1 assms(1) by (simp add: rr performAutoSqueeze_wellformed)
qed

lemma first_match:
  fixes k :: real
  assumes srt: "sorted (map sortKey xs)"
    and tL: "take L xs = filter (\<lambda>x. sortKey x < k) xs"
    and dL: "drop L xs = filter (\<lambda>x. \<not> sortKey x < k) xs"
    and L: "L = length (filter (\<lambda>x. sortKey x < k) xs)"
  shows "(L < length xs \<and> sortKey (xs ! L) = k) \<longleftrightarrow> k \<in> sortKey ` set xs"
proof
  assume "L < length xs \<and> sortKey (xs ! L) = k"
  then show "k \<in> sortKey ` set xs" by (metis image_eqI nth_mem)
next
  assume "k \<in> sortKey ` set xs"
  then obtain x where x: "x \<in> set xs" "sortKey x = k" by auto
  then have xin: "x \<in> set (drop L xs)" by (simp add: dL)
  then have ne: "drop L xs \<noteq> []" by auto
  then have Llt: "L < length xs" by simp
  have hd: "xs ! L = hd (drop L xs)" using Llt by (simp add: hd_drop_conv_nth)
  have "hd (drop L xs) \<in> set (drop L xs)" using ne by simp
  then have "hd (drop L xs) \<in> set (filter (\<lambda>x. \<not> sortKey x < k) xs)" by (simp add: dL)
  then have "\<not> sortKey (hd (drop L xs)) < k" by simp
  then have ge: "\<not> sortKey (xs ! L) < k" by (simp add: hd)
  obtain j where j: "j < length (drop L xs)" "drop L xs ! j = x"
    using xin by (auto simp: in_set_conv_nth)
  have "map sortKey xs ! L \<le> map sortKey xs ! (L + j)"
    using j(1) by (intro sorted_nth_mono[OF srt]) auto
  then have "sortKey (xs ! L) \<le> k" using j x Llt by simp
  then show "L < length xs \<and> sortKey (xs ! L) = k" using ge Llt by simp
qed

lemma remove_key_live:
  assumes "wellformed s" "sorted_c s"
  shows "live (remove_key s k cap)
           = (if k \<in> sortKey ` set (live s)
              then take (length (filter (\<lambda>x. sortKey x < k) (live s))) (live s)
                   @ drop (Suc (length (filter (\<lambda>x. sortKey x < k) (live s)))) (live s)
              else live s)"
    and "wellformed (remove_key s k cap)"
    and "\<not> mAutoSqueeze s \<Longrightarrow> remove_key s k cap
           = (if k \<in> sortKey ` set (live s)
              then (if length (filter (\<lambda>x. sortKey x < k) (live s)) = 0
                    then s\<lparr>mPreallocSize := mPreallocSize s + 1\<rparr>
                    else s\<lparr>mData := take (nat (mPreallocSize s)
                                         + length (filter (\<lambda>x. sortKey x < k) (live s))) (mData s)
                                    @ drop (nat (mPreallocSize s)
                                         + length (filter (\<lambda>x. sortKey x < k) (live s)) + 1) (mData s)\<rparr>)
              else s)"
proof -
  define xs where "xs = live s"
  define p where "p = mPreallocSize s"
  define L where "L = length (filter (\<lambda>x. sortKey x < k) xs)"
  define hit where "hit \<longleftrightarrow> k \<in> sortKey ` set xs"
  define s1 where "s1 = (if hit then (if L = 0 then s\<lparr>mPreallocSize := p + 1\<rparr>
                     else s\<lparr>mData := take (nat p + L) (mData s) @ drop (nat p + L + 1) (mData s)\<rparr>)
                   else s)"
  have p: "0 \<le> p" "p \<le> int (length (mData s))" using assms(1) by (auto simp: wellformed_def p_def)
  have xlen: "int (length xs) = int (length (mData s)) - p"
    using length_live[OF assms(1)] by (simp add: xs_def size_c_def p_def)
  have lb: "std_lower_bound (mData s) (constBegin s) (constEnd s) (fromSortKey k) = p + int L"
    using lower_bound_live(1)[OF assms, of "fromSortKey k"]
    by (simp add: sortKey_fromSortKey L_def xs_def p_def)
  have tL: "take L xs = filter (\<lambda>x. sortKey x < k) xs"
    and dL: "drop L xs = filter (\<lambda>x. \<not> sortKey x < k) xs"
    using lower_bound_live(2,3)[OF assms, of "fromSortKey k"]
    by (simp_all add: sortKey_fromSortKey L_def xs_def)
  have Lle: "L \<le> length xs" by (simp add: L_def)
  have fm: "(L < length xs \<and> sortKey (xs ! L) = k) \<longleftrightarrow> hit"
    unfolding hit_def using assms(2) by (intro first_match[OF _ tL dL L_def]) (simp add: sorted_c_def xs_def)
  have notend: "p + int L \<noteq> constEnd s \<longleftrightarrow> L < length xs"
    using Lle xlen by (auto simp: constEnd_def)
  have dr: "L < length xs \<Longrightarrow> deref s (p + int L) = xs ! L"
    using deref_live[OF assms(1), of L] by (simp add: xs_def p_def)
  have cond: "(p + int L \<noteq> constEnd s \<and> sortKey (deref s (p + int L)) = k) \<longleftrightarrow> hit"
    using fm notend dr by auto
  have rk: "remove_key s k cap = (if mAutoSqueeze s1 then performAutoSqueeze s1 cap else s1)"
    using p unfolding remove_key_def Let_def lb cond s1_def
    by (simp add: constBegin_def p_def[symmetric] QVector_erase_def nat_add_distrib)
  have Lp: "p + int L + 1 \<le> int (length (mData s))" if "hit"
  proof -
    have "L < length xs" using fm that by simp
    then have "int L + 1 \<le> int (length xs)" by simp
    then show ?thesis using xlen by linarith
  qed
  have w1: "wellformed s1"
    using p Lp assms(1) by (auto simp: s1_def wellformed_def p_def[symmetric])
  have l1: "live s1 = (if hit then take L xs @ drop (Suc L) xs else xs)"
    using p Lp
    by (auto simp: s1_def live_drop p_def[symmetric] xs_def nat_add_distrib drop_take ac_simps)
  show "live (remove_key s k cap)
           = (if k \<in> sortKey ` set (live s)
              then take (length (filter (\<lambda>x. sortKey x < k) (live s))) (live s)
                   @ drop (Suc (length (filter (\<lambda>x. sortKey x < k) (live s)))) (live s)
              else live s)"
    using l1 w1 by (simp add: rk performAutoSqueeze_live hit_def L_def xs_def)
  show "wellformed (remove_key s k cap)"
    using w1 by (simp add: rk performAutoSqueeze_wellformed)
  show "\<not> mAutoSqueeze s \<Longrightarrow> remove_key s k cap
           = (if k \<in> sortKey ` set (live s)
              then (if length (filter (\<lambda>x. sortKey x < k) (live s)) = 0
                    then s\<lparr>mPreallocSize := mPreallocSize s + 1\<rparr>
                    else s\<lparr>mData := take (nat (mPreallocSize s)
                                         + length (filter (\<lambda>x. sortKey x < k) (live s))) (mData s)
                                    @ drop (nat (mPreallocSize s)
                                         + length (filter (\<lambda>x. sortKey x < k) (live s)) + 1) (mData s)\<rparr>)
              else s)"
  proof -
    assume "\<not> mAutoSqueeze s"
    then have "\<not> mAutoSqueeze s1" by (simp add: s1_def)
    then show ?thesis by (simp add: rk) (simp add: s1_def hit_def L_def xs_def p_def)
  qed
qed

section \<open>Replacing, sorting and adding\<close>

lemma overwrite_tail:
  "0 \<le> p \<Longrightarrow> p \<le> int (length buf) \<Longrightarrow> length src = length buf - nat p \<Longrightarrow>
   overwrite buf p src = take (nat p) buf @ src"
  by (simp add: overwrite_def)

lemma sort_c_live:
  assumes "wellformed s"
  shows "live (sort_c s) = sort_key sortKey (live s)" and "wellformed (sort_c s)"
proof -
  have p: "0 \<le> mPreallocSize s" "mPreallocSize s \<le> int (length (mData s))"
    using assms by (auto simp: wellformed_def)
  have m: "mData (sort_c s) = take (nat (mPreallocSize s)) (mData s) @ sort_key sortKey (live s)"
    using p by (simp add: sort_c_def std_sort_def constBegin_def constEnd_def slice_to_end
        overwrite_tail live_drop)
  show "live (sort_c s) = sort_key sortKey (live s)"
    using p unfolding live_drop[of "sort_c s"] m by (simp add: sort_c_def live_drop)
  show "wellformed (sort_c s)"
    using p unfolding wellformed_def m by (simp add: sort_c_def)
qed

lemma set_vector_live:
  "live (set_vector s data alreadySorted)
     = (if alreadySorted then data else sort_key sortKey data)"
  "wellformed (set_vector s data alreadySorted)"
  "mPreallocSize (set_vector s data alreadySorted) = 0"
  "mPreallocIteration (set_vector s data alreadySorted) = 0"
proof -
  define s1 where "s1 = s\<lparr>mData := data, mPreallocSize := 0, mPreallocIteration := 0\<rparr>"
  have w: "wellformed s1" by (simp add: s1_def wellformed_def)
  have l: "live s1 = data" by (simp add: s1_def live_drop)
  have e: "set_vector s data alreadySorted = (if \<not> alreadySorted then sort_c s1 else s1)"
    by (simp add: set_vector_def s1_def Let_def)
  show "live (set_vector s data alreadySorted)
     = (if alreadySorted then data else sort_key sortKey data)"
    using sort_c_live(1)[OF w] l by (simp add: e)
  show "wellformed (set_vector s data alreadySorted)"
    using sort_c_live(2)[OF w] w by (simp add: e)
  show "mPreallocSize (set_vector s data alreadySorted) = 0"
    by (simp add: e sort_c_def s1_def)
  show "mPreallocIteration (set_vector s data alreadySorted) = 0"
    by (simp add: e sort_c_def s1_def)
qed

lemma clear_live: "live (clear s) = []" "wellformed (clear s)"
  by (simp_all add: clear_def live_drop wellformed_def)

lemma prepend_range_live:
  assumes "wellformed s"
  shows "live (prepend_range s src) = src @ live s" and "wellformed (prepend_range s src)"
proof -
  define n where "n = int (length src)"
  define s1 where "s1 = (if mPreallocSize s < n then preallocateGrow s n else s)"
  have w1: "wellformed s1" using assms by (simp add: s1_def preallocateGrow_wellformed)
  have l1: "live s1 = live s" using assms by (simp add: s1_def preallocateGrow_live)
  have big: "n \<le> mPreallocSize s1" using preallocateGrow_enough[of n s] by (simp add: s1_def)
  define q where "q = mPreallocSize s1 - n"
  have q: "0 \<le> q" "q + n \<le> int (length (mData s1))" "0 \<le> n"
    using big w1 by (auto simp: q_def wellformed_def n_def)
  have nn: "take (nat n) src = src" by (simp add: n_def)
  have pr: "prepend_range s src
          = s1\<lparr>mPreallocSize := q, mData := overwrite (mData s1) q src\<rparr>"
    using nn by (simp add: prepend_range_def Let_def n_def[symmetric] s1_def[symmetric] q_def
        std_copy_def constBegin_def slice_def)
  have len: "nat q + length src \<le> length (mData s1)" using q by (simp add: n_def; arith)
  have "drop (nat q) (overwrite (mData s1) q src) = src @ drop (nat q + length src) (mData s1)"
    using len by (simp add: overwrite_def)
  moreover have "nat q + length src = nat (mPreallocSize s1)"
    using q by (simp add: q_def n_def; arith)
  ultimately show "live (prepend_range s src) = src @ live s"
    unfolding pr using l1 by (simp add: live_drop)
  show "wellformed (prepend_range s src)"
    unfolding pr using q len by (simp add: wellformed_def overwrite_def; arith)
qed

lemma mset_merge_runs: "mset (merge_runs xs ys) = mset xs + mset ys"
  by (induction xs ys rule: merge_runs.induct) auto

lemma set_merge_runs: "set (merge_runs xs ys) = set xs \<union> set ys"
  using mset_merge_runs[of xs ys] by (metis set_mset_mset set_mset_union)

lemma sorted_merge_runs:
  "sorted (map sortKey xs) \<Longrightarrow> sorted (map sortKey ys) \<Longrightarrow>
   sorted (map sortKey (merge_runs xs ys))"
proof (induction xs ys rule: merge_runs.induct)
  case (3 x xs y ys)
  show ?case
  proof (cases "qcpLessThanSortKey y x")
    case True
    then have "\<forall>z\<in>set (merge_runs (x # xs) ys). sortKey y \<le> sortKey z"
      using "3.prems" by (auto simp: set_merge_runs qcpLessThanSortKey_def)
    then show ?thesis using True "3.IH"(1) "3.prems" by simp
  next
    case False
    then have "\<forall>z\<in>set (merge_runs xs (y # ys)). sortKey x \<le> sortKey z"
      using "3.prems" by (auto simp: set_merge_runs qcpLessThanSortKey_def)
    then show ?thesis using False "3.IH"(2) "3.prems" by simp
  qed
qed simp_all

lemma sorted_key_bounds:
  assumes "sorted (map sortKey xs)" "x \<in> set xs"
  shows "sortKey (hd xs) \<le> sortKey x" and "sortKey x \<le> sortKey (last xs)"
proof -
  obtain i where i: "i < length xs" "xs ! i = x" using assms(2) by (auto simp: in_set_conv_nth)
  have ne: "xs \<noteq> []" using assms(2) by auto
  have "map sortKey xs ! 0 \<le> map sortKey xs ! i"
    using i(1) by (intro sorted_nth_mono[OF assms(1)]) auto
  then show "sortKey (hd xs) \<le> sortKey x" using i ne by (simp add: hd_conv_nth)
  have "map sortKey xs ! i \<le> map sortKey xs ! (length xs - 1)"
    using i(1) by (intro sorted_nth_mono[OF assms(1)]) auto
  then show "sortKey x \<le> sortKey (last xs)" using i ne by (simp add: last_conv_nth)
qed

lemma sorted_key_append:
  assumes "sorted (map sortKey xs)" "sorted (map sortKey ys)"
    and "xs \<noteq> [] \<Longrightarrow> ys \<noteq> [] \<Longrightarrow> sortKey (last xs) \<le> sortKey (hd ys)"
  shows "sorted (map sortKey (xs @ ys))"
proof -
  have "sortKey x \<le> sortKey y" if "x \<in> set xs" "y \<in> set ys" for x y
  proof -
    have "sortKey x \<le> sortKey (last xs)" using sorted_key_bounds(2)[OF assms(1) that(1)] .
    also have "\<dots> \<le> sortKey (hd ys)"
    proof (rule assms(3))
      show "xs \<noteq> []" using that(1) by auto
      show "ys \<noteq> []" using that(2) by auto
    qed
    also have "\<dots> \<le> sortKey y" using sorted_key_bounds(1)[OF assms(2) that(2)] .
    finally show ?thesis .
  qed
  then show ?thesis using assms(1,2) by (auto simp: sorted_append)
qed

lemma resize_grow:
  "QVector_resize buf (int (length buf) + int n) = buf @ replicate n DataType_default"
  by (cases n) (simp_all add: QVector_resize_def nat_add_distrib)

lemma copy_into_tail:
  "length src = n \<Longrightarrow>
   overwrite (buf @ replicate n d) (int (length buf)) src = buf @ src"
  by (simp add: overwrite_def)

lemma sort_tail:
  "std_sort (buf @ data) (int (length buf)) (int (length buf) + int (length data))
     = buf @ sort_key sortKey data"
  by (simp add: std_sort_def slice_def overwrite_def)

lemma merge_tail:
  assumes "0 \<le> p" "p \<le> int (length buf)"
  shows "std_inplace_merge (buf @ data) p (int (length buf)) (int (length buf) + int (length data))
     = take (nat p) buf @ merge_runs (drop (nat p) buf) data"
proof -
  have a: "slice (buf @ data) p (int (length buf)) = drop (nat p) buf"
    using assms by (simp add: slice_def of_nat_diff nat_le_iff)
  have b: "slice (buf @ data) (int (length buf)) (int (length buf) + int (length data)) = data"
    by (simp add: slice_def)
  have "length (merge_runs (drop (nat p) buf) data) = length buf - nat p + length data"
    using mset_merge_runs[of "drop (nat p) buf" data] by (metis length_append length_drop mset_append size_mset)
  then show ?thesis
    unfolding std_inplace_merge_def a b overwrite_def using assms by (simp add: nat_le_iff)
qed

lemma nth_last_append:
  "buf \<noteq> [] \<Longrightarrow> (buf @ data) ! nat (int (length buf) - 1) = last buf"
  by (simp add: nth_append last_conv_nth nat_diff_distrib')

lemma nth_hd_append:
  "data \<noteq> [] \<Longrightarrow> (buf @ data) ! nat (int (length buf)) = hd data"
  by (simp add: nth_append hd_conv_nth)

lemma last_live: "wellformed s \<Longrightarrow> live s \<noteq> [] \<Longrightarrow> last (mData s) = last (live s)"
  by (simp add: live_drop)

lemma add_vector_live:
  assumes "wellformed s"
  shows "live (add_vector s data b)
     = (if data = [] then live s
        else if live s = [] then (if b then data else sort_key sortKey data)
        else if b \<and> \<not> sortKey (hd (live s)) < sortKey (last data) then data @ live s
        else if \<not> sortKey (last (live s)) < sortKey (hd (if b then data else sort_key sortKey data))
        then merge_runs (live s) (if b then data else sort_key sortKey data)
        else live s @ (if b then data else sort_key sortKey data))"
    and "wellformed (add_vector s data b)"
proof -
  define buf where "buf = mData s"
  define p where "p = mPreallocSize s"
  define d' where "d' = (if b then data else sort_key sortKey data)"
  have p: "0 \<le> p" "p \<le> int (length buf)" using assms by (auto simp: wellformed_def p_def buf_def)
  have lv: "live s = drop (nat p) buf" by (simp add: live_drop p_def buf_def)
  have emp: "isEmpty s \<longleftrightarrow> live s = []" by (rule isEmpty_live[OF assms])
  have len': "length d' = length data" by (simp add: d'_def)
  have both: "live (add_vector s data b)
     = (if data = [] then live s
        else if live s = [] then d'
        else if b \<and> \<not> sortKey (hd (live s)) < sortKey (last data) then data @ live s
        else if \<not> sortKey (last (live s)) < sortKey (hd d')
        then merge_runs (live s) d'
        else live s @ d') \<and> wellformed (add_vector s data b)"
  proof (cases "data = []")
    case True
    then show ?thesis using assms by (simp add: add_vector_def)
  next
    case ne: False
    show ?thesis
    proof (cases "live s = []")
      case True
      then show ?thesis using ne emp set_vector_live(1,2)[of s data b]
        by (simp add: add_vector_def d'_def)
    next
      case live: False
      then have bufne: "buf \<noteq> []" by (auto simp: lv)
      have "0 < int (length (live s))" using live by simp
      then have sz: "size_c s > 0" using length_live[OF assms] by simp
      have lastd: "data ! nat (int (length data) - 1) = last data"
        using ne by (simp add: last_conv_nth nat_diff_distrib')
      have first: "deref s (constBegin s) = hd (live s)" by (rule deref_begin[OF assms live])
      show ?thesis
      proof (cases "b \<and> \<not> sortKey (hd (live s)) < sortKey (last data)")
        case True
        then have "add_vector s data b = prepend_range s data"
          using ne live emp sz first lastd
          by (simp add: add_vector_def prepend_range_def Let_def qcpLessThanSortKey_def)
        then show ?thesis using True ne live prepend_range_live[OF assms, of data] by simp
      next
        case False
        define s3 where "s3 = s\<lparr>mData := buf @ d'\<rparr>"
        have d'ne: "d' \<noteq> []" using ne len' by (metis length_0_conv)
        have l3: "deref s3 (int (length buf) - 1) = last (live s)"
          using nth_last_append[OF bufne, of d'] last_live[OF assms live]
          by (simp add: deref_def s3_def buf_def)
        have h3: "deref s3 (int (length buf)) = hd d'"
          using nth_hd_append[OF d'ne, of buf] by (simp add: deref_def s3_def)
        have st: "std_sort (buf @ data) (int (length buf)) (int (length buf) + int (length data))
                    = buf @ sort_key sortKey data" by (rule sort_tail)
        have mt: "std_inplace_merge (buf @ d') p (int (length buf)) (int (length buf) + int (length d'))
                    = take (nat p) buf @ merge_runs (drop (nat p) buf) d'"
          by (rule merge_tail[OF p])
        have eq: "add_vector s data b =
            (if \<not> sortKey (last (live s)) < sortKey (hd d')
             then s3\<lparr>mData := take (nat p) buf @ merge_runs (drop (nat p) buf) d'\<rparr> else s3)"
          using False ne live emp sz first lastd l3 h3 st mt len'
          apply (simp add: add_vector_def Let_def qcpLessThanSortKey_def resize_grow
              buf_def[symmetric] constEnd_def constBegin_def std_copy_def slice_def
              copy_into_tail p_def[symmetric])
          apply (auto simp: s3_def d'_def copy_into_tail)
          done
        have w3: "wellformed s3" using p by (simp add: s3_def wellformed_def p_def)
        have lv3: "live s3 = live s @ d'" using p by (simp add: s3_def live_drop p_def lv[symmetric] buf_def nat_le_iff)
        have wm: "wellformed (s3\<lparr>mData := take (nat p) buf @ merge_runs (drop (nat p) buf) d'\<rparr>)"
          using p by (simp add: s3_def wellformed_def p_def[symmetric] nat_le_iff)
        have lm: "live (s3\<lparr>mData := take (nat p) buf @ merge_runs (drop (nat p) buf) d'\<rparr>)
                    = merge_runs (live s) d'"
          using p by (simp add: s3_def live_drop p_def[symmetric] buf_def[symmetric] nat_le_iff)
        show ?thesis using False ne live w3 lv3 wm lm by (auto simp: eq)
      qed
    qed
  qed
  show "live (add_vector s data b)
     = (if data = [] then live s
        else if live s = [] then (if b then data else sort_key sortKey data)
        else if b \<and> \<not> sortKey (hd (live s)) < sortKey (last data) then data @ live s
        else if \<not> sortKey (last (live s)) < sortKey (hd (if b then data else sort_key sortKey data))
        then merge_runs (live s) (if b then data else sort_key sortKey data)
        else live s @ (if b then data else sort_key sortKey data))"
    using both unfolding d'_def by blast
  show "wellformed (add_vector s data b)" using both by blast
qed

lemma add_container_live:
  assumes "wellformed s" "wellformed data"
  shows "live (add_container s data)
     = (if live data = [] then live s
        else if live s \<noteq> [] \<and> \<not> sortKey (hd (live s)) < sortKey (last (live data))
        then live data @ live s
        else if live s \<noteq> [] \<and> \<not> sortKey (last (live s)) < sortKey (hd (live data))
        then merge_runs (live s) (live data)
        else live s @ live data)"
    and "wellformed (add_container s data)"
proof -
  define buf where "buf = mData s"
  define p where "p = mPreallocSize s"
  define d' where "d' = live data"
  have p: "0 \<le> p" "p \<le> int (length buf)" using assms by (auto simp: wellformed_def p_def buf_def)
  have lv: "live s = drop (nat p) buf" by (simp add: live_drop p_def buf_def)
  have emp: "isEmpty s \<longleftrightarrow> live s = []" by (rule isEmpty_live[OF assms(1)])
  have empd: "isEmpty data \<longleftrightarrow> d' = []" unfolding d'_def by (rule isEmpty_live[OF assms(2)])
  have n: "size_c data = int (length d')" using length_live[OF assms(2)] by (simp add: d'_def)
  have szs: "size_c s = int (length (live s))" using length_live[OF assms(1)] by simp
  have sld: "slice (mData data) (constBegin data) (int (length (mData data))) = d'"
    by (simp add: d'_def live_def constEnd_def)
  have both: "live (add_container s data)
     = (if d' = [] then live s
        else if live s \<noteq> [] \<and> \<not> sortKey (hd (live s)) < sortKey (last d')
        then d' @ live s
        else if live s \<noteq> [] \<and> \<not> sortKey (last (live s)) < sortKey (hd d')
        then merge_runs (live s) d'
        else live s @ d') \<and> wellformed (add_container s data)"
  proof (cases "d' = []")
    case True
    then show ?thesis using assms(1) empd by (simp add: add_container_def)
  next
    case ne: False
    have lastd: "deref data (constEnd data - 1) = last d'"
      unfolding d'_def using ne by (intro deref_end[OF assms(2)]) (simp add: d'_def)
    show ?thesis
    proof (cases "live s \<noteq> [] \<and> \<not> sortKey (hd (live s)) < sortKey (last d')")
      case True
      then have "add_container s data = prepend_range s d'"
        using ne empd szs lastd deref_begin[OF assms(1)] n
        by (simp add: add_container_def prepend_range_def Let_def qcpLessThanSortKey_def
            std_copy_def sld[unfolded constEnd_def[symmetric]] slice_def[of d'])
      then show ?thesis using True ne prepend_range_live[OF assms(1), of d'] by simp
    next
      case False
      define s3 where "s3 = s\<lparr>mData := buf @ d'\<rparr>"
      have l3: "live s \<noteq> [] \<Longrightarrow> deref s3 (int (length buf) - 1) = last (live s)"
      proof -
        assume live: "live s \<noteq> []"
        then have bufne: "buf \<noteq> []" by (auto simp: lv)
        show ?thesis
          using nth_last_append[OF bufne, of d'] last_live[OF assms(1) live]
          by (simp add: deref_def s3_def buf_def)
      qed
      have h3: "deref s3 (int (length buf)) = hd d'"
        using nth_hd_append[OF ne, of buf] by (simp add: deref_def s3_def)
      have mt: "std_inplace_merge (buf @ d') p (int (length buf)) (int (length buf) + int (length d'))
                    = take (nat p) buf @ merge_runs (drop (nat p) buf) d'"
        by (rule merge_tail[OF p])
      have pre: "\<not> (size_c s > 0 \<and>
            \<not> qcpLessThanSortKey (deref s (constBegin s)) (deref data (constEnd data - 1)))"
      proof (cases "live s = []")
        case True
        then show ?thesis using szs by simp
      next
        case live: False
        then show ?thesis
          using False lastd deref_begin[OF assms(1) live] by (simp add: qcpLessThanSortKey_def)
      qed
      have stage: "s\<lparr>mData := std_copy (mData data) (constBegin data) (constEnd data)
                 (QVector_resize (mData s) (int (length (mData s)) + size_c data))
                 (constEnd (s\<lparr>mData := QVector_resize (mData s)
                                          (int (length (mData s)) + size_c data)\<rparr>) - size_c data)\<rparr>
               = s3"
        by (simp add: n resize_grow std_copy_def sld constEnd_def buf_def[symmetric]
            copy_into_tail s3_def)
      have eq: "add_container s data =
            (if live s \<noteq> [] \<and> \<not> sortKey (last (live s)) < sortKey (hd d')
             then s3\<lparr>mData := take (nat p) buf @ merge_runs (drop (nat p) buf) d'\<rparr> else s3)"
      proof -
        have "add_container s data =
           (if size_c s > 0 \<and>
                  \<not> qcpLessThanSortKey (deref s3 (constEnd s3 - size_c data - 1))
                       (deref s3 (constEnd s3 - size_c data))
               then s3\<lparr>mData := std_inplace_merge (mData s3) (constBegin s3)
                                   (constEnd s3 - size_c data) (constEnd s3)\<rparr>
               else s3)"
          using ne empd pre unfolding add_container_def Let_def
          by (auto simp: stage)
        also have "constEnd s3 = int (length buf) + int (length d')" by (simp add: constEnd_def s3_def)
        finally show ?thesis
          using l3 h3 mt szs
          by (auto simp: n qcpLessThanSortKey_def constBegin_def s3_def p_def[symmetric])
      qed
      have w3: "wellformed s3" using p by (simp add: s3_def wellformed_def p_def)
      have lv3: "live s3 = live s @ d'"
        using p by (simp add: s3_def live_drop p_def lv[symmetric] buf_def nat_le_iff)
      have wm: "wellformed (s3\<lparr>mData := take (nat p) buf @ merge_runs (drop (nat p) buf) d'\<rparr>)"
        using p by (simp add: s3_def wellformed_def p_def[symmetric] nat_le_iff)
      have lm: "live (s3\<lparr>mData := take (nat p) buf @ merge_runs (drop (nat p) buf) d'\<rparr>)
                    = merge_runs (live s) d'"
        using p by (simp add: s3_def live_drop p_def[symmetric] buf_def[symmetric] nat_le_iff)
      show ?thesis using False ne w3 lv3 wm lm by (auto simp: eq)
    qed
  qed
  show "live (add_container s data)
     = (if live data = [] then live s
        else if live s \<noteq> [] \<and> \<not> sortKey (hd (live s)) < sortKey (last (live data))
        then live data @ live s
        else if live s \<noteq> [] \<and> \<not> sortKey (last (live s)) < sortKey (hd (live data))
        then merge_runs (live s) (live data)
        else live s @ live data)"
    using both unfolding d'_def by blast
  show "wellformed (add_container s data)" using both by blast
qed

lemma drop_update_front:
  assumes "1 \<le> q" "q \<le> int (length buf)"
  shows "drop (nat (q - 1)) (buf[nat (q - 1) := x]) = x # drop (nat q) buf"
proof -
  define n where "n = nat (q - 1)"
  have n: "n < length buf" "nat q = Suc n" using assms by (auto simp: n_def)
  have "drop n (buf[n := x]) = (buf[n := x]) ! n # drop (Suc n) (buf[n := x])"
    using n(1) Cons_nth_drop_Suc[of n "buf[n := x]", symmetric] by simp
  then have "drop n (buf[n := x]) = x # drop (Suc n) buf" using n(1) by simp
  then show ?thesis using n(2) by (simp add: n_def[symmetric])
qed

lemma add_live:
  assumes "wellformed s" "sorted_c s"
  shows "live (add s x)
     = (if live s = [] \<or> \<not> sortKey x < sortKey (last (live s)) then live s @ [x]
        else if sortKey x < sortKey (hd (live s)) then x # live s
        else filter (\<lambda>y. sortKey y < sortKey x) (live s)
             @ x # filter (\<lambda>y. \<not> sortKey y < sortKey x) (live s))"
    and "wellformed (add s x)"
proof -
  define p where "p = mPreallocSize s"
  define L where "L = length (filter (\<lambda>y. sortKey y < sortKey x) (live s))"
  have p: "0 \<le> p" "p \<le> int (length (mData s))" using assms by (auto simp: wellformed_def p_def)
  have emp: "isEmpty s \<longleftrightarrow> live s = []" by (rule isEmpty_live[OF assms(1)])
  have both: "live (add s x)
     = (if live s = [] \<or> \<not> sortKey x < sortKey (last (live s)) then live s @ [x]
        else if sortKey x < sortKey (hd (live s)) then x # live s
        else filter (\<lambda>y. sortKey y < sortKey x) (live s)
             @ x # filter (\<lambda>y. \<not> sortKey y < sortKey x) (live s))
      \<and> wellformed (add s x)"
  proof (cases "live s = [] \<or> \<not> sortKey x < sortKey (last (live s))")
    case True
    then have "add s x = s\<lparr>mData := mData s @ [x]\<rparr>"
      using emp deref_end[OF assms(1)] by (auto simp: add_def qcpLessThanSortKey_def)
    then show ?thesis using True p
      by (auto simp: live_drop wellformed_def p_def[symmetric] nat_le_iff)
  next
    case False
    then have live: "live s \<noteq> []" and lt: "sortKey x < sortKey (last (live s))" by auto
    have c1: "\<not> (isEmpty s \<or> \<not> qcpLessThanSortKey x (deref s (constEnd s - 1)))"
      using live lt emp deref_end[OF assms(1) live] by (simp add: qcpLessThanSortKey_def)
    have c2: "qcpLessThanSortKey x (deref s (constBegin s)) \<longleftrightarrow> sortKey x < sortKey (hd (live s))"
      using deref_begin[OF assms(1) live] by (simp add: qcpLessThanSortKey_def)
    show ?thesis
    proof (cases "sortKey x < sortKey (hd (live s))")
      case True
      define s1 where "s1 = (if mPreallocSize s < 1 then preallocateGrow s 1 else s)"
      define q where "q = mPreallocSize s1"
      have w1: "wellformed s1" using assms(1) by (simp add: s1_def preallocateGrow_wellformed)
      have l1: "live s1 = live s" using assms(1) by (simp add: s1_def preallocateGrow_live)
      have q: "1 \<le> q" "q \<le> int (length (mData s1))"
        using preallocateGrow_enough[of 1 s] w1 by (auto simp: s1_def q_def wellformed_def)
      have eq: "add s x = s1\<lparr>mPreallocSize := q - 1, mData := (mData s1)[nat (q - 1) := x]\<rparr>"
        using c1 c2 True by (simp add: add_def Let_def s1_def[symmetric] q_def constBegin_def)
      have "live (add s x) = x # live s1"
        unfolding eq using drop_update_front[OF q, of x] by (simp add: live_drop q_def)
      moreover have "wellformed (add s x)"
        unfolding eq using q by (simp add: wellformed_def)
      ultimately show ?thesis using True False l1 by simp
    next
      case mid: False
      have lb: "std_lower_bound (mData s) (constBegin s) (constEnd s) x = p + int L"
        using lower_bound_live(1)[OF assms, of x] by (simp add: L_def p_def)
      have tL: "take L (live s) = filter (\<lambda>y. sortKey y < sortKey x) (live s)"
        and dL: "drop L (live s) = filter (\<lambda>y. \<not> sortKey y < sortKey x) (live s)"
        using lower_bound_live(2,3)[OF assms, of x] by (simp_all add: L_def)
      have Lp: "p + int L \<le> int (length (mData s))"
        using length_filter_live[OF assms(1), of "\<lambda>y. sortKey y < sortKey x"] by (simp add: L_def p_def)
      have eq: "add s x = s\<lparr>mData := take (nat p + L) (mData s) @ x # drop (nat p + L) (mData s)\<rparr>"
        using c1 c2 mid p by (simp add: add_def Let_def lb QVector_insert_def nat_add_distrib)
      have n: "nat p + L \<le> length (mData s)" using Lp p by arith
      have "live (add s x) = take L (live s) @ x # drop L (live s)"
        unfolding eq using p n
        by (simp add: live_drop p_def[symmetric] drop_take ac_simps)
      moreover have "wellformed (add s x)"
        unfolding eq using p n by (simp add: wellformed_def p_def[symmetric])
      ultimately show ?thesis using mid False by (simp add: tL dL)
    qed
  qed
  show "live (add s x)
     = (if live s = [] \<or> \<not> sortKey x < sortKey (last (live s)) then live s @ [x]
        else if sortKey x < sortKey (hd (live s)) then x # live s
        else filter (\<lambda>y. sortKey y < sortKey x) (live s)
             @ x # filter (\<lambda>y. \<not> sortKey y < sortKey x) (live s))"
    using both by blast
  show "wellformed (add s x)" using both by blast
qed

lemma add_sorted:
  assumes "wellformed s" "sorted_c s"
  shows "sorted_c (add s x)"
proof -
  let ?xs = "live s"
  have srt: "sorted (map sortKey ?xs)" using assms(2) by (simp add: sorted_c_def)
  have a: "sorted (map sortKey (?xs @ [x]))" if "?xs = [] \<or> \<not> sortKey x < sortKey (last ?xs)"
    using that srt by (intro sorted_key_append) auto
  have b: "sorted (map sortKey (x # ?xs))" if "sortKey x < sortKey (hd ?xs)"
  proof -
    have "sorted (map sortKey ([x] @ ?xs))"
      using that srt by (intro sorted_key_append) auto
    then show ?thesis by simp
  qed
  have c: "sorted (map sortKey (filter (\<lambda>y. sortKey y < sortKey x) ?xs
             @ x # filter (\<lambda>y. \<not> sortKey y < sortKey x) ?xs))"
    using srt by (auto simp: sorted_append sorted_filter_key intro: less_imp_le)
  show ?thesis unfolding sorted_c_def add_live(1)[OF assms] using a b c by auto
qed

section \<open>The sort invariant, operation by operation\<close>

lemma key_sequence_sorted:
  assumes "sorted (map sortKey ys)" "mset ys = mset xs"
  shows "map sortKey ys = sort (map sortKey xs)"
proof -
  have "mset (map sortKey ys) = mset (map sortKey xs)" using assms(2) by (metis mset_map)
  then show ?thesis using assms(1) by (metis properties_for_sort)
qed

lemma set_vector_sorted:
  "alreadySorted \<longrightarrow> sorted (map sortKey data) \<Longrightarrow> sorted_c (set_vector s data alreadySorted)"
  by (auto simp: sorted_c_def set_vector_live(1))

lemma add_vector_sorted:
  assumes "wellformed s" "sorted_c s" "b \<longrightarrow> sorted (map sortKey data)"
  shows "sorted_c (add_vector s data b)"
proof -
  define d' where "d' = (if b then data else sort_key sortKey data)"
  have sd: "sorted (map sortKey d')" using assms(3) by (simp add: d'_def)
  have sl: "sorted (map sortKey (live s))" using assms(2) by (simp add: sorted_c_def)
  have pre: "sorted (map sortKey (data @ live s))"
    if "b" "\<not> sortKey (hd (live s)) < sortKey (last data)"
    using that assms(3) sl by (intro sorted_key_append) auto
  have app: "sorted (map sortKey (live s @ d'))"
    if "sortKey (last (live s)) < sortKey (hd d')"
    using that sd sl by (intro sorted_key_append) auto
  have mrg: "sorted (map sortKey (merge_runs (live s) d'))"
    using sl sd by (rule sorted_merge_runs)
  show ?thesis
    unfolding sorted_c_def add_vector_live(1)[OF assms(1)] d'_def[symmetric]
    using sd sl pre app mrg by auto
qed

lemma add_container_sorted:
  assumes "wellformed s" "sorted_c s" "wellformed d" "sorted_c d"
  shows "sorted_c (add_container s d)"
proof -
  define d' where "d' = live d"
  have sd: "sorted (map sortKey d')" using assms(4) by (simp add: d'_def sorted_c_def)
  have sl: "sorted (map sortKey (live s))" using assms(2) by (simp add: sorted_c_def)
  have pre: "sorted (map sortKey (d' @ live s))"
    if "\<not> sortKey (hd (live s)) < sortKey (last d')"
    using that sd sl by (intro sorted_key_append) auto
  have app: "sorted (map sortKey (live s @ d'))"
    if "live s = [] \<or> sortKey (last (live s)) < sortKey (hd d')"
    using that sd sl by (intro sorted_key_append) auto
  have mrg: "sorted (map sortKey (merge_runs (live s) d'))"
    using sl sd by (rule sorted_merge_runs)
  show ?thesis
    unfolding sorted_c_def add_container_live(1)[OF assms(1,3)] d'_def[symmetric]
    using sd sl pre app mrg by auto
qed

lemma set_container_sorted:
  assumes "wellformed d" "sorted_c d"
  shows "sorted_c (set_container s d)"
proof -
  have "sorted_c (clear s)" by (simp add: sorted_c_def clear_live)
  then show ?thesis
    unfolding set_container_def using add_container_sorted[OF clear_live(2) _ assms] by simp
qed

lemma removals_sorted:
  assumes "wellformed s" "sorted_c s"
  shows "sorted_c (removeBefore s k cap)" "sorted_c (removeAfter s k cap)"
    "sorted_c (remove_range s a b cap)" "sorted_c (remove_key s k cap)"
proof -
  have sl: "sorted (map sortKey (live s))" using assms(2) by (simp add: sorted_c_def)
  show "sorted_c (removeBefore s k cap)"
    unfolding sorted_c_def removeBefore_live(1)[OF assms] using sl by (rule sorted_filter_key)
  show "sorted_c (removeAfter s k cap)"
    unfolding sorted_c_def removeAfter_live(1)[OF assms] using sl by (rule sorted_filter_key)
  have "sorted (map sortKey (filter (\<lambda>x. sortKey x < a) (live s) @ filter (\<lambda>x. b < sortKey x) (live s)))"
    if "a < b"
    using sl that by (auto simp: sorted_append sorted_filter_key)
  then show "sorted_c (remove_range s a b cap)"
    unfolding sorted_c_def remove_range_live(1)[OF assms] using sl by auto
  show "sorted_c (remove_key s k cap)"
    unfolding sorted_c_def remove_key_live(1)[OF assms]
    using sl sorted_take_drop[OF sl, of "length (filter (\<lambda>x. sortKey x < k) (live s))"
        "Suc (length (filter (\<lambda>x. sortKey x < k) (live s)))"] by simp
qed

chapter \<open>The claims of the specification\<close>

text \<open>
  Claim C1, as stated: every public mutating operation, among them \<open>set\<close> and \<open>add\<close> of
  a vector with either value of \<open>alreadySorted\<close>, keeps the live range non-decreasing
  under the sort key. The code leaves the order of a vector passed with
  \<open>alreadySorted = true\<close> to the caller: an unsorted vector passed that way ends up
  unsorted in the store.
\<close>

theorem add_alreadySorted_unsorted_counterexample:
  "wellformed (set_vector QCPDataContainer_new [\<lparr>sortKey = 5, mainValue = 50\<rparr>] True)
   \<and> sorted_c (set_vector QCPDataContainer_new [\<lparr>sortKey = 5, mainValue = 50\<rparr>] True)
   \<and> live (add_vector (set_vector QCPDataContainer_new [\<lparr>sortKey = 5, mainValue = 50\<rparr>] True)
             [\<lparr>sortKey = 7, mainValue = 70\<rparr>, \<lparr>sortKey = 6, mainValue = 60\<rparr>] True)
       = [\<lparr>sortKey = 5, mainValue = 50\<rparr>, \<lparr>sortKey = 7, mainValue = 70\<rparr>,
          \<lparr>sortKey = 6, mainValue = 60\<rparr>]
   \<and> \<not> sorted_c (add_vector (set_vector QCPDataContainer_new [\<lparr>sortKey = 5, mainValue = 50\<rparr>] True)
             [\<lparr>sortKey = 7, mainValue = 70\<rparr>, \<lparr>sortKey = 6, mainValue = 60\<rparr>] True)"
proof -
  let ?s = "set_vector QCPDataContainer_new [\<lparr>sortKey = 5, mainValue = 50\<rparr>] True"
  have l: "live ?s = [\<lparr>sortKey = 5, mainValue = 50\<rparr>]" by (simp add: set_vector_live(1))
  have h: "wellformed ?s" by (rule set_vector_live(2))
  have srt: "sorted_c ?s" by (simp add: sorted_c_def l)
  have r: "live (add_vector ?s [\<lparr>sortKey = 7, mainValue = 70\<rparr>, \<lparr>sortKey = 6, mainValue = 60\<rparr>] True)
       = [\<lparr>sortKey = 5, mainValue = 50\<rparr>, \<lparr>sortKey = 7, mainValue = 70\<rparr>,
          \<lparr>sortKey = 6, mainValue = 60\<rparr>]"
    unfolding add_vector_live(1)[OF h] l by simp
  have "\<not> sorted_c (add_vector ?s [\<lparr>sortKey = 7, mainValue = 70\<rparr>, \<lparr>sortKey = 6, mainValue = 60\<rparr>] True)"
    unfolding sorted_c_def r by simp
  then show ?thesis using h srt r by blast
qed

text \<open>
  Claim C1, as the code has it: on a valid store every public mutating operation returns a
  valid store, where a vector passed with \<open>alreadySorted = true\<close> is sorted by sort key
  and a container argument is itself a valid store.
\<close>

theorem sort_invariant_preserved:
  assumes "valid s"
  shows "valid (set_vector s xs False)
       \<and> (sorted (map sortKey ys) \<longrightarrow> valid (set_vector s ys True))
       \<and> (valid d \<longrightarrow> valid (set_container s d) \<and> valid (add_container s d))
       \<and> valid (add_vector s xs False)
       \<and> (sorted (map sortKey ys) \<longrightarrow> valid (add_vector s ys True))
       \<and> valid (add s p)
       \<and> valid (removeBefore s k cap)
       \<and> valid (removeAfter s k cap)
       \<and> valid (remove_range s a b cap)
       \<and> valid (remove_key s k cap)
       \<and> valid (clear s)
       \<and> valid (squeeze s preAllocation postAllocation)"
proof -
  have w: "wellformed s" and srt: "sorted_c s" using assms by (auto simp: valid_def)
  have c1: "valid (set_vector s xs False)"
    using set_vector_sorted[of False xs s] by (simp add: valid_def set_vector_live(2))
  have c2: "sorted (map sortKey ys) \<longrightarrow> valid (set_vector s ys True)"
    using set_vector_sorted[of True ys s] by (simp add: valid_def set_vector_live(2))
  have c3: "valid d \<longrightarrow> valid (set_container s d) \<and> valid (add_container s d)"
  proof
    assume "valid d"
    then have d: "wellformed d" "sorted_c d" by (auto simp: valid_def)
    have "wellformed (set_container s d)"
      unfolding set_container_def by (rule add_container_live(2)[OF clear_live(2) d(1)])
    then show "valid (set_container s d) \<and> valid (add_container s d)"
      using set_container_sorted[OF d, of s] add_container_sorted[OF w srt d]
        add_container_live(2)[OF w d(1)] by (simp add: valid_def)
  qed
  have c4: "valid (add_vector s xs False)"
    using add_vector_sorted[OF w srt, of False xs] add_vector_live(2)[OF w, of xs False]
    by (simp add: valid_def)
  have c5: "sorted (map sortKey ys) \<longrightarrow> valid (add_vector s ys True)"
    using add_vector_sorted[OF w srt, of True ys] add_vector_live(2)[OF w, of ys True]
    by (simp add: valid_def)
  have c6: "valid (add s p)"
    using add_sorted[OF w srt, of p] add_live(2)[OF w srt, of p] by (simp add: valid_def)
  have c7: "valid (removeBefore s k cap)"
    using removals_sorted(1)[OF w srt, of k cap] removeBefore_live(2)[OF w srt, of k cap]
    by (simp add: valid_def)
  have c8: "valid (removeAfter s k cap)"
    using removals_sorted(2)[OF w srt, of k cap] removeAfter_live(2)[OF w srt, of k cap]
    by (simp add: valid_def)
  have c9: "valid (remove_range s a b cap)"
    using removals_sorted(3)[OF w srt, of a b cap] remove_range_live(2)[OF w srt, of a b cap]
    by (simp add: valid_def)
  have c10: "valid (remove_key s k cap)"
    using removals_sorted(4)[OF w srt, of k cap] remove_key_live(2)[OF w srt, of k cap]
    by (simp add: valid_def)
  have c11: "valid (clear s)" by (simp add: valid_def clear_live sorted_c_def)
  have c12: "valid (squeeze s preAllocation postAllocation)"
    using srt by (simp add: valid_def squeeze_wellformed[OF w] sorted_c_def squeeze_live[OF w])
  show ?thesis using c1 c2 c3 c4 c5 c6 c7 c8 c9 c10 c11 c12 by blast
qed

theorem sort_invariant_preserved_witness:
  "valid (set_vector QCPDataContainer_new
       [\<lparr>sortKey = 5, mainValue = 50\<rparr>, \<lparr>sortKey = 6, mainValue = 60\<rparr>,
        \<lparr>sortKey = 7, mainValue = 70\<rparr>] True)
   \<and> sorted (map sortKey [\<lparr>sortKey = 1, mainValue = 10\<rparr>, \<lparr>sortKey = 6, mainValue = 61\<rparr>])
   \<and> valid (set_vector QCPDataContainer_new
       [\<lparr>sortKey = 4, mainValue = 40\<rparr>, \<lparr>sortKey = 8, mainValue = 80\<rparr>] True)
   \<and> valid (add_vector (set_vector QCPDataContainer_new
       [\<lparr>sortKey = 5, mainValue = 50\<rparr>, \<lparr>sortKey = 6, mainValue = 60\<rparr>,
        \<lparr>sortKey = 7, mainValue = 70\<rparr>] True)
         [\<lparr>sortKey = 1, mainValue = 10\<rparr>, \<lparr>sortKey = 6, mainValue = 61\<rparr>] True)
   \<and> valid (add_container (set_vector QCPDataContainer_new
       [\<lparr>sortKey = 5, mainValue = 50\<rparr>, \<lparr>sortKey = 6, mainValue = 60\<rparr>,
        \<lparr>sortKey = 7, mainValue = 70\<rparr>] True)
         (set_vector QCPDataContainer_new
       [\<lparr>sortKey = 4, mainValue = 40\<rparr>, \<lparr>sortKey = 8, mainValue = 80\<rparr>] True))
   \<and> valid (add_vector (set_vector QCPDataContainer_new
       [\<lparr>sortKey = 5, mainValue = 50\<rparr>, \<lparr>sortKey = 6, mainValue = 60\<rparr>,
        \<lparr>sortKey = 7, mainValue = 70\<rparr>] True)
         [\<lparr>sortKey = 9, mainValue = 90\<rparr>, \<lparr>sortKey = 2, mainValue = 20\<rparr>] False)
   \<and> valid (remove_range (set_vector QCPDataContainer_new
       [\<lparr>sortKey = 5, mainValue = 50\<rparr>, \<lparr>sortKey = 6, mainValue = 60\<rparr>,
        \<lparr>sortKey = 7, mainValue = 70\<rparr>] True) 5 6 0)"
proof -
  let ?s = "set_vector QCPDataContainer_new
       [\<lparr>sortKey = 5, mainValue = 50\<rparr>, \<lparr>sortKey = 6, mainValue = 60\<rparr>,
        \<lparr>sortKey = 7, mainValue = 70\<rparr>] True"
  let ?d = "set_vector QCPDataContainer_new
       [\<lparr>sortKey = 4, mainValue = 40\<rparr>, \<lparr>sortKey = 8, mainValue = 80\<rparr>] True"
  let ?ys = "[\<lparr>sortKey = 1, mainValue = 10\<rparr>, \<lparr>sortKey = 6, mainValue = 61\<rparr>]"
  let ?xs = "[\<lparr>sortKey = 9, mainValue = 90\<rparr>, \<lparr>sortKey = 2, mainValue = 20\<rparr>]"
  have vs: "valid ?s" by (simp add: valid_def set_vector_live(1,2) sorted_c_def)
  have vd: "valid ?d" by (simp add: valid_def set_vector_live(1,2) sorted_c_def)
  have ys: "sorted (map sortKey ?ys)" by simp
  show ?thesis
    using vs vd ys
      sort_invariant_preserved[OF vs, of ?xs ?ys ?d "\<lparr>sortKey = 3, mainValue = 30\<rparr>" 6 0 5 6 True True]
    by blast
qed

text \<open>
  Claim C2: \<open>removeAfter(k)\<close> erases the trailing elements from the first one whose sort
  key is greater than or equal to \<open>k\<close>, so that \<open>removeAfter(6)\<close> on the sequence
  \<open>(5,50), (6,60), (7,70)\<close> leaves \<open>(5,50)\<close> only. The code searches with
  \<open>std::upper_bound\<close>: the element with key 6 stays and the size is 2.
\<close>

theorem removeAfter_keeps_equal_key:
  "live (removeAfter
           (set_vector QCPDataContainer_new
              [\<lparr>sortKey = 5, mainValue = 50\<rparr>, \<lparr>sortKey = 6, mainValue = 60\<rparr>,
               \<lparr>sortKey = 7, mainValue = 70\<rparr>] True) 6 0)
     = [\<lparr>sortKey = 5, mainValue = 50\<rparr>, \<lparr>sortKey = 6, mainValue = 60\<rparr>]
   \<and> size_c (removeAfter
           (set_vector QCPDataContainer_new
              [\<lparr>sortKey = 5, mainValue = 50\<rparr>, \<lparr>sortKey = 6, mainValue = 60\<rparr>,
               \<lparr>sortKey = 7, mainValue = 70\<rparr>] True) 6 0) = 2"
  by code_simp

text \<open>
  Claim C3: \<open>removeBefore(k)\<close> removes the leading elements up to the first one whose sort
  key is strictly greater than \<open>k\<close>, by adding their count to the front slack. The code
  searches with \<open>std::lower_bound\<close>: on \<open>(3,30), (5,50), (6,60), (7,70)\<close> the call
  \<open>removeBefore(5)\<close> moves the front slack by one and the element with key 5 stays.
\<close>

theorem removeBefore_keeps_equal_key:
  "live (removeBefore
           (set_vector QCPDataContainer_new
              [\<lparr>sortKey = 3, mainValue = 30\<rparr>, \<lparr>sortKey = 5, mainValue = 50\<rparr>,
               \<lparr>sortKey = 6, mainValue = 60\<rparr>, \<lparr>sortKey = 7, mainValue = 70\<rparr>] True) 5 0)
     = [\<lparr>sortKey = 5, mainValue = 50\<rparr>, \<lparr>sortKey = 6, mainValue = 60\<rparr>,
        \<lparr>sortKey = 7, mainValue = 70\<rparr>]
   \<and> mPreallocSize (removeBefore
           (set_vector QCPDataContainer_new
              [\<lparr>sortKey = 3, mainValue = 30\<rparr>, \<lparr>sortKey = 5, mainValue = 50\<rparr>,
               \<lparr>sortKey = 6, mainValue = 60\<rparr>, \<lparr>sortKey = 7, mainValue = 70\<rparr>] True) 5 0) = 1"
  by code_simp

text \<open>
  Claim C4: for every input vector \<open>xs\<close>, sorted or not, \<open>set(xs)\<close> with
  \<open>alreadySorted = false\<close> makes the live sequence \<open>xs\<close> sorted in non-decreasing order of
  the sort key: it is sorted, it holds the same multiset of points as \<open>xs\<close>, its key
  sequence is the sorted key sequence of \<open>xs\<close>; the front slack and the growth counter
  are zero.
\<close>

theorem set_unsorted_roundtrip:
  "sorted (map sortKey (live (set_vector s xs False)))
   \<and> mset (live (set_vector s xs False)) = mset xs
   \<and> map sortKey (live (set_vector s xs False)) = sort (map sortKey xs)
   \<and> mPreallocSize (set_vector s xs False) = 0
   \<and> mPreallocIteration (set_vector s xs False) = 0"
proof -
  have l: "live (set_vector s xs False) = sort_key sortKey xs"
    by (simp add: set_vector_live(1))
  have a: "sorted (map sortKey (sort_key sortKey xs))" by simp
  have b: "mset (sort_key sortKey xs) = mset xs" by simp
  show ?thesis
    unfolding l using a b key_sequence_sorted[OF a b] by (simp add: set_vector_live(3,4))
qed

text \<open>
  Claim C5: for every point \<open>p\<close> and every sorted store, the single-point \<open>add(p)\<close>
  gives the sequence one gets by appending \<open>p\<close> to the contents and sorting by sort key:
  the result is sorted, holds the old points and \<open>p\<close>, and its key sequence is the sorted
  key sequence of the old contents with \<open>p\<close> appended, whichever of the three paths
  (append, prepend into the front slack, insertion at the lower bound) is taken.
\<close>

theorem add_point_as_sort:
  assumes "wellformed s" "sorted_c s"
  shows "sorted (map sortKey (live (add s p)))
       \<and> mset (live (add s p)) = mset (live s @ [p])
       \<and> map sortKey (live (add s p)) = sort (map sortKey (live s @ [p]))
       \<and> size_c (add s p) = size_c s + 1"
proof -
  have a: "sorted (map sortKey (live (add s p)))"
    using add_sorted[OF assms, of p] by (simp add: sorted_c_def)
  have part: "mset (filter (\<lambda>y. sortKey y < sortKey p) (live s))
              + mset (filter (\<lambda>y. \<not> sortKey y < sortKey p) (live s)) = mset (live s)"
    by (induction "live s") auto
  have b: "mset (live (add s p)) = mset (live s @ [p])"
    unfolding add_live(1)[OF assms] using part by (auto simp: ac_simps)
  have "int (length (live (add s p))) = int (length (live s @ [p]))"
    using b by (metis size_mset)
  then have c: "size_c (add s p) = size_c s + 1"
    using length_live[OF assms(1)] length_live[OF add_live(2)[OF assms, of p]] by simp
  show ?thesis using a b c key_sequence_sorted[OF a b] by simp
qed

theorem add_point_as_sort_witness:
  "wellformed (set_vector QCPDataContainer_new
       [\<lparr>sortKey = 5, mainValue = 50\<rparr>, \<lparr>sortKey = 6, mainValue = 60\<rparr>,
        \<lparr>sortKey = 7, mainValue = 70\<rparr>] True)
   \<and> sorted_c (set_vector QCPDataContainer_new
       [\<lparr>sortKey = 5, mainValue = 50\<rparr>, \<lparr>sortKey = 6, mainValue = 60\<rparr>,
        \<lparr>sortKey = 7, mainValue = 70\<rparr>] True)
   \<and> map sortKey (live (add (set_vector QCPDataContainer_new
       [\<lparr>sortKey = 5, mainValue = 50\<rparr>, \<lparr>sortKey = 6, mainValue = 60\<rparr>,
        \<lparr>sortKey = 7, mainValue = 70\<rparr>] True) \<lparr>sortKey = 3, mainValue = 30\<rparr>)) = [3, 5, 6, 7]
   \<and> map sortKey (live (add (set_vector QCPDataContainer_new
       [\<lparr>sortKey = 5, mainValue = 50\<rparr>, \<lparr>sortKey = 6, mainValue = 60\<rparr>,
        \<lparr>sortKey = 7, mainValue = 70\<rparr>] True) \<lparr>sortKey = 6, mainValue = 66\<rparr>)) = [5, 6, 6, 7]
   \<and> map sortKey (live (add (set_vector QCPDataContainer_new
       [\<lparr>sortKey = 5, mainValue = 50\<rparr>, \<lparr>sortKey = 6, mainValue = 60\<rparr>,
        \<lparr>sortKey = 7, mainValue = 70\<rparr>] True) \<lparr>sortKey = 9, mainValue = 90\<rparr>)) = [5, 6, 7, 9]"
proof -
  let ?s = "set_vector QCPDataContainer_new
       [\<lparr>sortKey = 5, mainValue = 50\<rparr>, \<lparr>sortKey = 6, mainValue = 60\<rparr>,
        \<lparr>sortKey = 7, mainValue = 70\<rparr>] True"
  have l: "live ?s = [\<lparr>sortKey = 5, mainValue = 50\<rparr>, \<lparr>sortKey = 6, mainValue = 60\<rparr>,
        \<lparr>sortKey = 7, mainValue = 70\<rparr>]"
    by (simp add: set_vector_live(1))
  have h: "wellformed ?s" by (rule set_vector_live(2))
  have srt: "sorted_c ?s" by (simp add: sorted_c_def l)
  have a: "map sortKey (live (add ?s \<lparr>sortKey = 3, mainValue = 30\<rparr>)) = [3, 5, 6, 7]"
    using add_point_as_sort[OF h srt, of "\<lparr>sortKey = 3, mainValue = 30\<rparr>"] unfolding l
    by (simp add: sort_key_def)
  have b: "map sortKey (live (add ?s \<lparr>sortKey = 6, mainValue = 66\<rparr>)) = [5, 6, 6, 7]"
    using add_point_as_sort[OF h srt, of "\<lparr>sortKey = 6, mainValue = 66\<rparr>"] unfolding l
    by (simp add: sort_key_def)
  have c: "map sortKey (live (add ?s \<lparr>sortKey = 9, mainValue = 90\<rparr>)) = [5, 6, 7, 9]"
    using add_point_as_sort[OF h srt, of "\<lparr>sortKey = 9, mainValue = 90\<rparr>"] unfolding l
    by (simp add: sort_key_def)
  show ?thesis using h srt a b c by blast
qed

text \<open>
  Claim C6: on an empty store \<open>findBegin\<close> and \<open>findEnd\<close> return the end iterator for
  both values of \<open>expandedRange\<close>. On a sorted non-empty store \<open>findBegin(k, false)\<close> is
  the lower bound and \<open>findEnd(k, false)\<close> the upper bound of \<open>k\<close>, and the elements
  between them are exactly the elements with sort key \<open>k\<close>. With \<open>expandedRange\<close> set,
  \<open>findBegin\<close> steps one element down unless it is at the begin iterator and
  \<open>findEnd\<close> one element up unless it is at the end iterator.
\<close>

theorem findBegin_findEnd_bracket:
  assumes "wellformed s" "sorted_c s"
  shows "(isEmpty s \<longrightarrow> findBegin s k e = constEnd s \<and> findEnd s k e = constEnd s)
       \<and> (\<not> isEmpty s \<longrightarrow>
            findBegin s k False
              = constBegin s + int (length (filter (\<lambda>x. sortKey x < k) (live s)))
          \<and> findEnd s k False
              = constBegin s + int (length (filter (\<lambda>x. sortKey x \<le> k) (live s)))
          \<and> constBegin s \<le> findBegin s k False
          \<and> findBegin s k False \<le> findEnd s k False
          \<and> findEnd s k False \<le> constEnd s
          \<and> slice (mData s) (findBegin s k False) (findEnd s k False)
              = filter (\<lambda>x. sortKey x = k) (live s)
          \<and> findBegin s k True
              = (if findBegin s k False = constBegin s then constBegin s
                 else findBegin s k False - 1)
          \<and> findEnd s k True
              = (if findEnd s k False = constEnd s then constEnd s
                 else findEnd s k False + 1))"
proof -
  define xs where "xs = live s"
  define p where "p = mPreallocSize s"
  define L where "L = length (filter (\<lambda>x. sortKey x < k) xs)"
  define U where "U = length (filter (\<lambda>x. \<not> k < sortKey x) xs)"
  have p: "0 \<le> p" "p \<le> int (length (mData s))" using assms(1) by (auto simp: wellformed_def p_def)
  have xlen: "int (length xs) = int (length (mData s)) - p"
    using length_live[OF assms(1)] by (simp add: xs_def size_c_def p_def)
  have lb: "std_lower_bound (mData s) (constBegin s) (constEnd s) (fromSortKey k) = p + int L"
    using lower_bound_live(1)[OF assms, of "fromSortKey k"]
    by (simp add: sortKey_fromSortKey L_def xs_def p_def)
  have ub: "std_upper_bound (mData s) (constBegin s) (constEnd s) (fromSortKey k) = p + int U"
    using upper_bound_live(1)[OF assms, of "fromSortKey k"]
    by (simp add: sortKey_fromSortKey U_def xs_def p_def)
  have tL: "take L xs = filter (\<lambda>x. sortKey x < k) xs"
    using lower_bound_live(2)[OF assms, of "fromSortKey k"]
    by (simp add: sortKey_fromSortKey L_def xs_def)
  have tU: "take U xs = filter (\<lambda>x. \<not> k < sortKey x) xs"
    using upper_bound_live(2)[OF assms, of "fromSortKey k"]
    by (simp add: sortKey_fromSortKey U_def xs_def)
  have LU: "L \<le> U" and run: "take (U - L) (drop L xs) = filter (\<lambda>x. sortKey x = k) xs"
    using equal_run[OF tL tU L_def U_def] by simp_all
  have Ulen: "U \<le> length xs" by (simp add: U_def)
  have Ule: "(\<lambda>x. sortKey x \<le> k) = (\<lambda>x. \<not> k < sortKey x)" by (auto simp: fun_eq_iff)
  have n1: "nat (p + int U - (p + int L)) = U - L" by arith
  have n2: "nat (p + int L) = nat p + L" using p by (simp add: nat_add_distrib)
  have sl: "slice (mData s) (p + int L) (p + int U) = take (U - L) (drop L xs)"
    unfolding slice_def n1 n2 by (simp add: xs_def live_drop p_def ac_simps)
  have fbF: "\<not> isEmpty s \<Longrightarrow> findBegin s k False = p + int L"
    by (simp add: findBegin_def lb)
  have feF: "\<not> isEmpty s \<Longrightarrow> findEnd s k False = p + int U"
    by (simp add: findEnd_def ub)
  have fbT: "\<not> isEmpty s \<Longrightarrow> findBegin s k True
              = (if p + int L = constBegin s then constBegin s else p + int L - 1)"
    by (simp add: findBegin_def lb)
  have feT: "\<not> isEmpty s \<Longrightarrow> findEnd s k True
              = (if p + int U = constEnd s then constEnd s else p + int U + 1)"
    by (simp add: findEnd_def ub)
  have emp: "isEmpty s \<Longrightarrow> findBegin s k e = constEnd s \<and> findEnd s k e = constEnd s"
    by (simp add: findBegin_def findEnd_def)
  have b3: "p + int U \<le> constEnd s" using Ulen xlen by (simp add: constEnd_def)
  show ?thesis
  proof (cases "isEmpty s")
    case True
    then show ?thesis using emp by simp
  next
    case False
    have c1: "findBegin s k False = constBegin s + int (length (filter (\<lambda>x. sortKey x < k) (live s)))"
      by (simp add: fbF[OF False] constBegin_def p_def L_def xs_def)
    have c2: "findEnd s k False = constBegin s + int (length (filter (\<lambda>x. sortKey x \<le> k) (live s)))"
      unfolding Ule by (simp add: feF[OF False] constBegin_def p_def U_def xs_def)
    have c3: "constBegin s \<le> findBegin s k False" by (simp add: c1)
    have c4: "findBegin s k False \<le> findEnd s k False" using LU by (simp add: fbF[OF False] feF[OF False])
    have c5: "findEnd s k False \<le> constEnd s" using b3 by (simp add: feF[OF False])
    have c6: "slice (mData s) (findBegin s k False) (findEnd s k False)
              = filter (\<lambda>x. sortKey x = k) (live s)"
      unfolding fbF[OF False] feF[OF False] sl run by (simp add: xs_def)
    have c7: "findBegin s k True
              = (if findBegin s k False = constBegin s then constBegin s
                 else findBegin s k False - 1)"
      unfolding fbF[OF False] fbT[OF False] by simp
    have c8: "findEnd s k True
              = (if findEnd s k False = constEnd s then constEnd s
                 else findEnd s k False + 1)"
      unfolding feF[OF False] feT[OF False] by simp
    show ?thesis using False c1 c2 c3 c4 c5 c6 c7 c8 by blast
  qed
qed

theorem findBegin_findEnd_bracket_witness:
  "wellformed (set_vector QCPDataContainer_new
       [\<lparr>sortKey = 5, mainValue = 50\<rparr>, \<lparr>sortKey = 6, mainValue = 60\<rparr>,
        \<lparr>sortKey = 6, mainValue = 61\<rparr>, \<lparr>sortKey = 7, mainValue = 70\<rparr>] True)
   \<and> sorted_c (set_vector QCPDataContainer_new
       [\<lparr>sortKey = 5, mainValue = 50\<rparr>, \<lparr>sortKey = 6, mainValue = 60\<rparr>,
        \<lparr>sortKey = 6, mainValue = 61\<rparr>, \<lparr>sortKey = 7, mainValue = 70\<rparr>] True)
   \<and> findBegin (set_vector QCPDataContainer_new
       [\<lparr>sortKey = 5, mainValue = 50\<rparr>, \<lparr>sortKey = 6, mainValue = 60\<rparr>,
        \<lparr>sortKey = 6, mainValue = 61\<rparr>, \<lparr>sortKey = 7, mainValue = 70\<rparr>] True) 6 False = 1
   \<and> findEnd (set_vector QCPDataContainer_new
       [\<lparr>sortKey = 5, mainValue = 50\<rparr>, \<lparr>sortKey = 6, mainValue = 60\<rparr>,
        \<lparr>sortKey = 6, mainValue = 61\<rparr>, \<lparr>sortKey = 7, mainValue = 70\<rparr>] True) 6 False = 3
   \<and> findBegin (set_vector QCPDataContainer_new
       [\<lparr>sortKey = 5, mainValue = 50\<rparr>, \<lparr>sortKey = 6, mainValue = 60\<rparr>,
        \<lparr>sortKey = 6, mainValue = 61\<rparr>, \<lparr>sortKey = 7, mainValue = 70\<rparr>] True) 6 True = 0
   \<and> findEnd (set_vector QCPDataContainer_new
       [\<lparr>sortKey = 5, mainValue = 50\<rparr>, \<lparr>sortKey = 6, mainValue = 60\<rparr>,
        \<lparr>sortKey = 6, mainValue = 61\<rparr>, \<lparr>sortKey = 7, mainValue = 70\<rparr>] True) 6 True = 4"
proof -
  let ?s = "set_vector QCPDataContainer_new
       [\<lparr>sortKey = 5, mainValue = 50\<rparr>, \<lparr>sortKey = 6, mainValue = 60\<rparr>,
        \<lparr>sortKey = 6, mainValue = 61\<rparr>, \<lparr>sortKey = 7, mainValue = 70\<rparr>] True"
  have v: "mData ?s = [\<lparr>sortKey = 5, mainValue = 50\<rparr>, \<lparr>sortKey = 6, mainValue = 60\<rparr>,
        \<lparr>sortKey = 6, mainValue = 61\<rparr>, \<lparr>sortKey = 7, mainValue = 70\<rparr>]"
    "mPreallocSize ?s = 0"
    by (simp_all add: set_vector_def QCPDataContainer_new_def)
  have h: "wellformed ?s" by (simp add: wellformed_def v)
  have l: "live ?s = [\<lparr>sortKey = 5, mainValue = 50\<rparr>, \<lparr>sortKey = 6, mainValue = 60\<rparr>,
        \<lparr>sortKey = 6, mainValue = 61\<rparr>, \<lparr>sortKey = 7, mainValue = 70\<rparr>]"
    by (simp add: live_drop v)
  have srt: "sorted_c ?s" by (simp add: sorted_c_def l)
  have ne: "\<not> isEmpty ?s" by (simp add: isEmpty_def size_c_def v)
  have c: "constBegin ?s = 0" "constEnd ?s = 4" by (simp_all add: constBegin_def constEnd_def v)
  have a: "findBegin ?s 6 False = 1 \<and> findEnd ?s 6 False = 3
          \<and> findBegin ?s 6 True = 0 \<and> findEnd ?s 6 True = 4"
    using findBegin_findEnd_bracket[OF h srt, of 6 False] ne unfolding l c by simp
  show ?thesis using h srt a by blast
qed

text \<open>
  Claim C7: for every store state and both boolean arguments, \<open>squeeze\<close> leaves the live
  sequence and \<open>size()\<close> unchanged (and the auto-squeeze flag too); only the front slack,
  the growth counter and the unused part of the buffer change.
\<close>

theorem squeeze_transparent:
  assumes "wellformed s"
  shows "live (squeeze s preAllocation postAllocation) = live s
       \<and> size_c (squeeze s preAllocation postAllocation) = size_c s
       \<and> mAutoSqueeze (squeeze s preAllocation postAllocation) = mAutoSqueeze s
       \<and> (preAllocation \<or> mPreallocSize (squeeze s preAllocation postAllocation) = mPreallocSize s)"
proof -
  have "int (length (live (squeeze s preAllocation postAllocation))) = int (length (live s))"
    by (simp add: squeeze_live[OF assms])
  then have "size_c (squeeze s preAllocation postAllocation) = size_c s"
    using length_live[OF assms] length_live[OF squeeze_wellformed[OF assms]] by simp
  then show ?thesis
    by (simp add: squeeze_live[OF assms] squeeze_mAutoSqueeze) (simp add: squeeze_def)
qed

theorem squeeze_transparent_witness:
  "wellformed \<lparr>mAutoSqueeze = True,
       mData = [DataType_default, DataType_default, \<lparr>sortKey = 5, mainValue = 50\<rparr>,
                \<lparr>sortKey = 6, mainValue = 60\<rparr>],
       mPreallocSize = 2, mPreallocIteration = 1\<rparr>
   \<and> live (squeeze \<lparr>mAutoSqueeze = True,
       mData = [DataType_default, DataType_default, \<lparr>sortKey = 5, mainValue = 50\<rparr>,
                \<lparr>sortKey = 6, mainValue = 60\<rparr>],
       mPreallocSize = 2, mPreallocIteration = 1\<rparr> True True)
     = [\<lparr>sortKey = 5, mainValue = 50\<rparr>, \<lparr>sortKey = 6, mainValue = 60\<rparr>]
   \<and> size_c (squeeze \<lparr>mAutoSqueeze = True,
       mData = [DataType_default, DataType_default, \<lparr>sortKey = 5, mainValue = 50\<rparr>,
                \<lparr>sortKey = 6, mainValue = 60\<rparr>],
       mPreallocSize = 2, mPreallocIteration = 1\<rparr> True True) = 2"
proof -
  let ?s = "\<lparr>mAutoSqueeze = True,
       mData = [DataType_default, DataType_default, \<lparr>sortKey = 5, mainValue = 50\<rparr>,
                \<lparr>sortKey = 6, mainValue = 60\<rparr>],
       mPreallocSize = 2, mPreallocIteration = 1\<rparr>"
  have h: "wellformed ?s" by (simp add: wellformed_def)
  have l: "live ?s = [\<lparr>sortKey = 5, mainValue = 50\<rparr>, \<lparr>sortKey = 6, mainValue = 60\<rparr>]"
    by (simp add: live_drop)
  have sz: "size_c ?s = 2" by (simp add: size_c_def)
  show ?thesis using h squeeze_transparent[OF h, of True True] l sz by simp
qed

text \<open>
  Claim C8, as stated: when \<open>growFrontSlack(m)\<close> (\<open>preallocateGrow\<close>) has to grow, the
  new front slack is \<open>m\<close> plus a schedule value that starts at a floor of 16. On a
  fresh store \<open>preallocateGrow(1)\<close> gives a front slack of 5, less than \<open>1 + 16\<close>: the
  schedule of the code starts at \<open>16 - 12\<close>.
\<close>

theorem preallocateGrow_floor_counterexample:
  "\<not> mPreallocSize QCPDataContainer_new \<ge> 1
   \<and> mPreallocSize (preallocateGrow QCPDataContainer_new 1) = 5
   \<and> \<not> 1 + 16 \<le> mPreallocSize (preallocateGrow QCPDataContainer_new 1)"
  by (simp add: preallocateGrow_def QCPDataContainer_new_def qBound_def Let_def)

text \<open>
  Claim C8, as the code has it: when the front slack is at least \<open>m\<close> nothing changes;
  otherwise the new front slack is \<open>m + 2 ^ clamp(growthIteration + 4, 4, 15) - 12\<close>, which
  is \<open>m + 4\<close> at iteration 0 and \<open>m + 32768 - 12\<close> from iteration 11 on, and the growth
  counter is incremented by one.
\<close>

theorem preallocateGrow_schedule:
  "(m \<le> mPreallocSize s \<longrightarrow> preallocateGrow s m = s)
   \<and> (\<not> m \<le> mPreallocSize s \<longrightarrow>
        mPreallocSize (preallocateGrow s m)
          = m + (if mPreallocIteration s \<le> 0 then 4
                 else if 11 \<le> mPreallocIteration s then 32768 - 12
                 else 2 ^ (nat (mPreallocIteration s) + 4) - 12)
      \<and> mPreallocIteration (preallocateGrow s m) = mPreallocIteration s + 1
      \<and> m + 4 \<le> mPreallocSize (preallocateGrow s m)
      \<and> mPreallocSize (preallocateGrow s m) \<le> m + (32768 - 12))"
proof -
  define i where "i = mPreallocIteration s"
  have sched: "(2::int) ^ nat (qBound 4 (i + 4) 15) - 12
      = (if i \<le> 0 then 4 else if 11 \<le> i then 32768 - 12 else 2 ^ (nat i + 4) - 12)"
  proof -
    consider "i \<le> 0" | "11 \<le> i" | "0 < i" "i < 11" by linarith
    then show ?thesis
    proof cases
      case 1
      then have "qBound 4 (i + 4) 15 = 4" by (simp add: qBound_def)
      then show ?thesis using 1 by simp
    next
      case 2
      then have "qBound 4 (i + 4) 15 = 15" by (simp add: qBound_def)
      then show ?thesis using 2 by simp
    next
      case 3
      then have "qBound 4 (i + 4) 15 = i + 4" by (simp add: qBound_def)
      then show ?thesis using 3 by (simp add: nat_add_distrib)
    qed
  qed
  have lo: "(4::int) \<le> 2 ^ nat (qBound 4 (i + 4) 15) - 12" by (rule schedule_pos)
  have "nat (qBound 4 (i + 4) 15) \<le> 15" by (simp add: qBound_def)
  then have "(2::int) ^ nat (qBound 4 (i + 4) 15) \<le> 2 ^ 15" by (rule power_increasing) simp
  then have hi: "(2::int) ^ nat (qBound 4 (i + 4) 15) - 12 \<le> 32768 - 12" by simp
  show ?thesis
    using sched lo hi unfolding i_def
    by (simp add: preallocateGrow_def Let_def)
qed

theorem preallocateGrow_schedule_witness:
  "preallocateGrow (QCPDataContainer_new\<lparr>mPreallocSize := 3, mData := replicate 3 DataType_default\<rparr>) 2
     = QCPDataContainer_new\<lparr>mPreallocSize := 3, mData := replicate 3 DataType_default\<rparr>
   \<and> mPreallocSize (preallocateGrow (QCPDataContainer_new\<lparr>mPreallocIteration := 2\<rparr>) 1) = 1 + (64 - 12)
   \<and> mPreallocIteration (preallocateGrow (QCPDataContainer_new\<lparr>mPreallocIteration := 2\<rparr>) 1) = 3"
  using preallocateGrow_schedule[of 2 "QCPDataContainer_new\<lparr>mPreallocSize := 3, mData := replicate 3 DataType_default\<rparr>"]
    preallocateGrow_schedule[of 1 "QCPDataContainer_new\<lparr>mPreallocIteration := 2\<rparr>"]
  by (simp add: QCPDataContainer_new_def)

text \<open>
  Claim C9, as stated: \<open>at(i)\<close> returns the end iterator for every index out of bounds,
  the negative ones included. On a store with one element \<open>at(-1)\<close> is the begin
  iterator, which is not the end iterator there.
\<close>

theorem at_negative_counterexample:
  "(-1 :: int) < 0
   \<and> at_c (set_vector QCPDataContainer_new [\<lparr>sortKey = 5, mainValue = 50\<rparr>] True) (-1)
       \<noteq> constEnd (set_vector QCPDataContainer_new [\<lparr>sortKey = 5, mainValue = 50\<rparr>] True)
   \<and> at_c (set_vector QCPDataContainer_new [\<lparr>sortKey = 5, mainValue = 50\<rparr>] True) (-1)
       = constBegin (set_vector QCPDataContainer_new [\<lparr>sortKey = 5, mainValue = 50\<rparr>] True)"
  by (simp add: at_c_def set_vector_def QCPDataContainer_new_def constEnd_def constBegin_def
      qBound_def size_c_def)

text \<open>
  Claim C9, as the code has it: \<open>at(i)\<close> lies between the begin and the end iterator; it
  is the begin iterator for a negative index, the end iterator for an index at or beyond
  the size, and the iterator to the \<open>i\<close>-th live element for an index in bounds.
\<close>

theorem at_clamps:
  assumes "wellformed s"
  shows "constBegin s \<le> at_c s index \<and> at_c s index \<le> constEnd s
       \<and> (index < 0 \<longrightarrow> at_c s index = constBegin s)
       \<and> (size_c s \<le> index \<longrightarrow> at_c s index = constEnd s)
       \<and> (0 \<le> index \<and> index < size_c s \<longrightarrow>
            at_c s index = constBegin s + index \<and> deref s (at_c s index) = live s ! nat index)"
proof -
  have sz: "0 \<le> size_c s" using assms by (simp add: wellformed_def size_c_def)
  have inb: "deref s (constBegin s + index) = live s ! nat index"
    if "0 \<le> index" "index < size_c s"
    using live_nth[OF assms that] by (simp add: deref_def constBegin_def)
  show ?thesis
    using sz inb
    by (auto simp: at_c_def qBound_def constBegin_def constEnd_def size_c_def min_def max_def)
qed

theorem at_clamps_witness:
  "wellformed (set_vector QCPDataContainer_new
       [\<lparr>sortKey = 5, mainValue = 50\<rparr>, \<lparr>sortKey = 6, mainValue = 60\<rparr>] True)
   \<and> at_c (set_vector QCPDataContainer_new
       [\<lparr>sortKey = 5, mainValue = 50\<rparr>, \<lparr>sortKey = 6, mainValue = 60\<rparr>] True) 7 = 2
   \<and> at_c (set_vector QCPDataContainer_new
       [\<lparr>sortKey = 5, mainValue = 50\<rparr>, \<lparr>sortKey = 6, mainValue = 60\<rparr>] True) (-3) = 0
   \<and> deref (set_vector QCPDataContainer_new
       [\<lparr>sortKey = 5, mainValue = 50\<rparr>, \<lparr>sortKey = 6, mainValue = 60\<rparr>] True)
        (at_c (set_vector QCPDataContainer_new
       [\<lparr>sortKey = 5, mainValue = 50\<rparr>, \<lparr>sortKey = 6, mainValue = 60\<rparr>] True) 1)
       = \<lparr>sortKey = 6, mainValue = 60\<rparr>"
proof -
  let ?s = "set_vector QCPDataContainer_new
       [\<lparr>sortKey = 5, mainValue = 50\<rparr>, \<lparr>sortKey = 6, mainValue = 60\<rparr>] True"
  have h: "wellformed ?s" by (simp add: wellformed_def set_vector_def QCPDataContainer_new_def)
  have v: "size_c ?s = 2" "constBegin ?s = 0" "constEnd ?s = 2"
    "live ?s = [\<lparr>sortKey = 5, mainValue = 50\<rparr>, \<lparr>sortKey = 6, mainValue = 60\<rparr>]"
    by (simp_all add: size_c_def constBegin_def constEnd_def live_drop set_vector_def QCPDataContainer_new_def)
  have a: "at_c ?s 7 = 2" using at_clamps[OF h, of 7] v by auto
  have b: "at_c ?s (-3) = 0" using at_clamps[OF h, of "-3"] v by auto
  have c: "deref ?s (at_c ?s 1) = \<lparr>sortKey = 6, mainValue = 60\<rparr>"
    using at_clamps[OF h, of 1] v by auto
  show ?thesis using h a b c by blast
qed



end
